theory Spec2Isabelle
  imports Complex_Main "HOL-Library.Multiset" "HOL-Library.Sublist"
begin

unbundle bit_operations_syntax

section \<open>Data model of sequoia.c\<close>

text \<open>
  Item identifiers (\<^verbatim>\<open>ITEM\<close>) are natural numbers; an item array ends at its
  negative sentinel, which is the end of the list here. A pointer into the item array of
  a transaction (\<^verbatim>\<open>const ITEM *\<close>, \<^verbatim>\<open>WITEM *\<close>) is the index of the
  element it points to; the sentinel has the index \<open>length\<close>. Supports and weights
  (\<^verbatim>\<open>SUPP\<close>) are the values of a 32-bit \<^verbatim>\<open>int\<close>, written as integers; the
  only arithmetic on them is the addition \<^verbatim>\<open>supp += wgt\<close>, which wraps around.
  A \<^verbatim>\<open>double\<close> is the real number it stands for; every product and sum of doubles
  is rounded by the function \<open>dbl\<close> of the store, which stands for the rounding of the
  machine and about which nothing is assumed.
\<close>

definition SUPP_add :: "int \<Rightarrow> int \<Rightarrow> int" where
  "SUPP_add a b = signed_take_bit 31 (a + b)"

record WITEM =
  w_item :: nat
  w_wgt :: real

text \<open>
  \<^verbatim>\<open>PATOCC\<close> and \<^verbatim>\<open>WPATOCC\<close> differ only in the element type of the item array.
  The slab behind \<^verbatim>\<open>ips\<close> comes from \<^verbatim>\<open>malloc\<close>: an entry that was never
  written is \<open>None\<close>.
\<close>

record 'a PATOCC =
  wgt :: int
  items :: "'a list"
  ips :: "nat option list"

text \<open>
  \<^verbatim>\<open>OCCEXT\<close>: \<open>item\<close> is the position of the extension item in the transaction,
  \<open>occ\<close> the index of the pattern occurrence in the array \<^verbatim>\<open>occs\<close>.
\<close>

record OCCEXT =
  item :: nat
  occ :: nat

text \<open>
  \<^verbatim>\<open>PATEXT\<close>: the filled part of the slice \<^verbatim>\<open>oxs\<close> is a list, and the field
  \<^verbatim>\<open>cnt\<close> is its length.
\<close>

record PATEXT =
  supp :: int
  oxs :: "OCCEXT list"

definition ext_cnt :: "PATEXT \<Rightarrow> nat" where
  "ext_cnt e = length (oxs e)"

section \<open>The closedness test\<close>

text \<open>
  The gap of occurrence \<open>po\<close> in front of pattern position \<open>n\<close>:
  \<^verbatim>\<open>s = (n > 0) ? o->ips[n-1]+1 : o->items; z = o->ips[n];\<close> and the items in
  \<^verbatim>\<open>[s, z)\<close>. The anchors lie inside the transaction.
\<close>

definition gap :: "'a PATOCC \<Rightarrow> nat \<Rightarrow> 'a list" where
  "gap po n =
     (let s = (if n > 0 then the (ips po ! (n - 1)) + 1 else 0);
          z = the (ips po ! n)
      in drop s (take z (items po)))"

text \<open>
  \<^verbatim>\<open>for (k = 0; s < z; s++) { c = ++rd->frqs[*s]; if (c > i) k++; if (c <= 1) *b++ = *s; }\<close>
  over the items of one gap. The touch list \<open>b\<close> is a stack, its top is the head.
  \<open>key\<close> reads the item identifier (\<^verbatim>\<open>*s\<close> in \<^verbatim>\<open>closed\<close>,
  \<^verbatim>\<open>x->item\<close> in \<^verbatim>\<open>closed_iw\<close>).
\<close>

fun scan_gap :: "('a \<Rightarrow> nat) \<Rightarrow> nat \<Rightarrow> 'a list \<Rightarrow> nat list \<times> nat list \<times> nat
    \<Rightarrow> nat list \<times> nat list \<times> nat" where
  "scan_gap key i [] (f, b, k) = (f, b, k)"
| "scan_gap key i (x # xs) (f, b, k) =
     (let c = f ! key x + 1
      in scan_gap key i xs
           (f[key x := c], if c \<le> 1 then key x # b else b, if c > i then k + 1 else k))"

text \<open>
  \<^verbatim>\<open>for (i = 0; i < ext->cnt; i++) { ...; if (k <= 0) break; }\<close>: the occurrences
  still to visit are the list, \<open>i\<close> is the index of its head.
\<close>

fun scan_occs :: "('a \<Rightarrow> nat) \<Rightarrow> 'a PATOCC list \<Rightarrow> nat \<Rightarrow> nat \<Rightarrow> OCCEXT list
    \<Rightarrow> nat list \<times> nat list \<times> nat \<Rightarrow> nat list \<times> nat list \<times> nat" where
  "scan_occs key os n i [] fbk = fbk"
| "scan_occs key os n i (x # xs) (f, b, k) =
     (case scan_gap key i (gap (os ! occ x) n) (f, b, 0) of
        (f', b', k') \<Rightarrow>
          if k' \<le> 0 then (f', b', k') else scan_occs key os n (i + 1) xs (f', b', k'))"

text \<open>\<^verbatim>\<open>while (b > rd->buf) rd->frqs[*--b] = 0;\<close>\<close>

fun clear_frqs :: "nat list \<Rightarrow> nat list \<Rightarrow> nat list" where
  "clear_frqs f [] = f"
| "clear_frqs f (x # b) = clear_frqs (f[x := 0]) b"

text \<open>
  \<^verbatim>\<open>while (--n >= 0) { ...; if (k > 0) return 0; } return -1;\<close> The result is
  the returned \<^verbatim>\<open>int\<close> and the counter array.
\<close>

fun closed_gaps :: "('a \<Rightarrow> nat) \<Rightarrow> 'a PATOCC list \<Rightarrow> OCCEXT list \<Rightarrow> nat \<Rightarrow> nat list \<Rightarrow> nat
    \<Rightarrow> int \<times> nat list" where
  "closed_gaps key os xs 0 f k = (- 1, f)"
| "closed_gaps key os xs (Suc n) f k =
     (case scan_occs key os n 0 xs (f, [], k) of
        (f', b, k') \<Rightarrow>
          if k' > 0 then (0, clear_frqs f' b)
          else closed_gaps key os xs n (clear_frqs f' b) k')"

text \<open>
  \<^verbatim>\<open>for (k = 0; k < ext->cnt; k++) { x = ext->oxs +k; x->occ->ips[n-1] = x->item; }\<close>
  with \<open>m = n - 1\<close>.
\<close>

fun anchor :: "OCCEXT list \<Rightarrow> nat \<Rightarrow> 'a PATOCC list \<Rightarrow> 'a PATOCC list" where
  "anchor [] m os = os"
| "anchor (x # xs) m os =
     anchor xs m (os[occ x := (os ! occ x)\<lparr>ips := (ips (os ! occ x))[m := Some (item x)]\<rparr>])"

section \<open>The reporter and the recursion data\<close>

text \<open>
  Modelled from the spec: the item set reporter (\<^verbatim>\<open>report.c\<close>, with
  \<^verbatim>\<open>isr_add\<close>, \<^verbatim>\<open>isr_report\<close>, \<^verbatim>\<open>isr_remove\<close>,
  \<^verbatim>\<open>isr_isetx\<close>, \<^verbatim>\<open>isr_zmax\<close>) is not part of the source file. The spec gives a
  push/pop discipline for the unweighted callbacks and a one-shot call for the weighted
  one; a pattern shorter than \<open>zmin\<close> is not written (\<open>zmax\<close> prunes the recursion,
  which reads it with \<^verbatim>\<open>isr_zmax\<close>, and is no filter of the reporter); the empty pattern has
  the total transaction weight as its support; a call that writes may fail with a negative
  status. \<open>r_rets\<close> lists the outcomes of the coming writes (\<open>True\<close>: success; an
  exhausted list: success). \<open>r_out\<close> is what has been written: items, weights, support.
  The optional support border per pattern length is not set.
\<close>

record ISREPORT =
  r_zmin :: nat
  r_zmax :: nat
  r_wgt :: int
  r_stack :: "(nat \<times> int) list"
  r_out :: "(nat list \<times> real list \<times> int) list"
  r_rets :: "bool list"

definition isr_zmax :: "ISREPORT \<Rightarrow> nat" where
  "isr_zmax rep = r_zmax rep"

definition isr_add :: "ISREPORT \<Rightarrow> nat \<Rightarrow> int \<Rightarrow> ISREPORT" where
  "isr_add rep i s = rep\<lparr>r_stack := r_stack rep @ [(i, s)]\<rparr>"

definition isr_remove :: "ISREPORT \<Rightarrow> nat \<Rightarrow> ISREPORT" where
  "isr_remove rep n = rep\<lparr>r_stack := take (length (r_stack rep) - n) (r_stack rep)\<rparr>"

definition isr_isetx :: "ISREPORT \<Rightarrow> nat list \<Rightarrow> nat \<Rightarrow> real list \<Rightarrow> int \<Rightarrow> int \<times> ISREPORT" where
  "isr_isetx rep its n ws s =
     (if n < r_zmin rep then (0, rep)
      else case r_rets rep of
             [] \<Rightarrow> (0, rep\<lparr>r_out := r_out rep @ [(take n its, take n ws, s)]\<rparr>)
           | b # bs \<Rightarrow>
               if b then (0, rep\<lparr>r_out := r_out rep @ [(take n its, take n ws, s)], r_rets := bs\<rparr>)
               else (- 1, rep\<lparr>r_rets := bs\<rparr>))"

definition isr_report :: "ISREPORT \<Rightarrow> int \<times> ISREPORT" where
  "isr_report rep =
     isr_isetx rep (map fst (r_stack rep)) (length (r_stack rep)) []
       (if r_stack rep = [] then r_wgt rep else snd (last (r_stack rep)))"

text \<open>
  Modelled from the spec: \<^verbatim>\<open>ISR_CLOSED\<close> comes from the missing \<^verbatim>\<open>report.h\<close>; it is
  a single flag bit, and \<^verbatim>\<open>ISR_ALL\<close> is \<open>0\<close>.
\<close>

definition ISR_ALL :: int where
  "ISR_ALL = 0"

definition ISR_CLOSED :: int where
  "ISR_CLOSED = 1"

text \<open>
  \<^verbatim>\<open>RECDATA\<close>: the scalar fields, which the recursion only reads. The buffers behind its
  pointer fields are in the store below.
\<close>

record RECDATA =
  target :: int
  mode :: int
  cnt :: nat
  zmax :: nat
  smin :: int

definition closed_mode :: "RECDATA \<Rightarrow> bool" where
  "closed_mode rd = (mode rd AND ISR_CLOSED \<noteq> 0)"

text \<open>
  The memory the engine works on: the counters \<^verbatim>\<open>rd->frqs\<close>, the array \<^verbatim>\<open>occs\<close> of
  pattern occurrences that the occurrence extensions point into, the pattern buffers
  \<^verbatim>\<open>rd->items\<close> and \<^verbatim>\<open>rd->wgts\<close> of the weighted variant, and the reporter.
  \<open>heap\<close> lists the outcomes of the coming \<^verbatim>\<open>malloc\<close> calls (\<open>True\<close>: a block is
  returned; an exhausted list: success). \<open>dbl\<close> is the rounding of the machine's
  \<^verbatim>\<open>double\<close> arithmetic. \<open>failed\<close>, \<open>deepest\<close> and \<open>unanchored\<close> are not
  program variables: \<open>failed\<close> counts the \<^verbatim>\<open>malloc\<close> and reporter calls that have
  failed, \<open>deepest\<close> is the largest pattern length \<^verbatim>\<open>len\<close> with which the
  recursion has been entered, and \<open>unanchored\<close> counts the occurrence extensions
  \<^verbatim>\<open>x\<close> for which \<^verbatim>\<open>x->occ->ips[len-1]\<close> was not \<^verbatim>\<open>x->item\<close> when
  \<^verbatim>\<open>recurse\<close> reached the projection block of their item.
\<close>

record 'a store =
  frqs :: "nat list"
  occs :: "'a PATOCC list"
  pat :: "nat list"
  wgts :: "real list"
  report :: ISREPORT
  heap :: "bool list"
  dbl :: "real \<Rightarrow> real"
  failed :: nat
  deepest :: nat
  unanchored :: nat

definition entered :: "'a store \<Rightarrow> nat \<Rightarrow> 'a store" where
  "entered st len = st\<lparr>deepest := max (deepest st) len\<rparr>"

definition malloc :: "'a store \<Rightarrow> bool \<times> 'a store" where
  "malloc st =
     (case heap st of
        [] \<Rightarrow> (True, st)
      | b # bs \<Rightarrow> (b, st\<lparr>heap := bs, failed := (if b then failed st else failed st + 1)\<rparr>))"

text \<open>A reporter call from the engine: the status, and a failure is counted.\<close>

definition reported :: "'a store \<Rightarrow> int \<times> ISREPORT \<Rightarrow> int \<times> 'a store" where
  "reported st r =
     (fst r, st\<lparr>report := snd r, failed := (if fst r < 0 then failed st + 1 else failed st)\<rparr>)"

text \<open>
  \<^verbatim>\<open>closed\<close> (here \<open>closed_ext\<close>, as the name is taken by the closed sets of a
  topology) first anchors the new pattern position, then scans the gaps.
\<close>

text \<open>
  The number of occurrence extensions in \<open>xs\<close> whose occurrence does not have the
  extension item as its anchor \<open>m\<close>.
\<close>

definition missing_anchors :: "'a PATOCC list \<Rightarrow> OCCEXT list \<Rightarrow> nat \<Rightarrow> nat" where
  "missing_anchors os xs m = length (filter (\<lambda>x. ips (os ! occ x) ! m \<noteq> Some (item x)) xs)"

definition closed_ext :: "PATEXT \<Rightarrow> nat \<Rightarrow> nat store \<Rightarrow> int \<times> nat store" where
  "closed_ext ext n st =
     (let os = anchor (oxs ext) (n - 1) (occs st)
      in case closed_gaps (\<lambda>x. x) os (oxs ext) n (frqs st) 0 of
           (r, f) \<Rightarrow> (r, st\<lparr>occs := os, frqs := f\<rparr>))"

definition closed_iw :: "PATEXT \<Rightarrow> nat \<Rightarrow> WITEM store \<Rightarrow> int \<times> WITEM store" where
  "closed_iw ext n st =
     (case closed_gaps w_item (occs st) (oxs ext) n (frqs st) 0 of
        (r, f) \<Rightarrow> (r, st\<lparr>frqs := f\<rparr>))"

text \<open>
  The test \<^verbatim>\<open>(rd->mode & ISR_CLOSED) && !closed(e, len, rd)\<close> of the recursion: whether
  the item is skipped, and the store after the test. \<^verbatim>\<open>closed\<close> is called in closed
  mode only.
\<close>

definition closed_filter :: "RECDATA \<Rightarrow> PATEXT \<Rightarrow> nat \<Rightarrow> nat store \<Rightarrow> bool \<times> nat store" where
  "closed_filter rd e len st =
     (if closed_mode rd then (case closed_ext e len st of (r, st') \<Rightarrow> (r = 0, st'))
      else (False, st))"

definition closed_filter_iw :: "RECDATA \<Rightarrow> PATEXT \<Rightarrow> nat \<Rightarrow> WITEM store \<Rightarrow> bool \<times> WITEM store" where
  "closed_filter_iw rd e len st =
     (if closed_mode rd then (case closed_iw e len st of (r, st') \<Rightarrow> (r = 0, st'))
      else (False, st))"

section \<open>Projection\<close>

text \<open>
  The body of the two loops that fill an array of pattern extensions from the items of a
  transaction, from position \<open>p\<close> on (\<open>ts\<close> are the items at \<open>p\<close>, \<open>p + 1\<close>, ...
  up to the sentinel):
  \<^verbatim>\<open>c = cond + *p; x = c->oxs + c->cnt++; x->item = p; x->occ = o; c->supp += o->wgt;\<close>
  and \<^verbatim>\<open>z++\<close>. \<open>oi\<close> is the index of the occurrence \<^verbatim>\<open>o\<close>, \<open>w\<close> its weight.
  Item identifiers are below the length of the array.
\<close>

fun tail_walk :: "('a \<Rightarrow> nat) \<Rightarrow> nat \<Rightarrow> int \<Rightarrow> nat \<Rightarrow> 'a list \<Rightarrow> PATEXT list \<times> nat
    \<Rightarrow> PATEXT list \<times> nat" where
  "tail_walk key oi w p [] (cond, z) = (cond, z)"
| "tail_walk key oi w p (t # ts) (cond, z) =
     tail_walk key oi w (p + 1) ts
       (cond[key t := (cond ! key t)\<lparr>supp := SUPP_add (supp (cond ! key t)) w,
                                     oxs := oxs (cond ! key t) @ [\<lparr>item = p, occ = oi\<rparr>]\<rparr>],
        z + 1)"

text \<open>
  \<^verbatim>\<open>for (z = 0, k = 0; k < e->cnt; k++) { x = e->oxs +k; o = x->occ;
  for (p = x->item; *++p >= 0; z++) ... }\<close>
\<close>

fun project :: "('a \<Rightarrow> nat) \<Rightarrow> 'a PATOCC list \<Rightarrow> OCCEXT list \<Rightarrow> PATEXT list \<times> nat
    \<Rightarrow> PATEXT list \<times> nat" where
  "project key os [] cz = cz"
| "project key os (x # xs) cz =
     project key os xs
       (tail_walk key (occ x) (wgt (os ! occ x)) (item x + 1)
          (drop (item x + 1) (items (os ! occ x))) cz)"

text \<open>\<^verbatim>\<open>for (k = 0; k < rd->cnt; k++) cond[k].supp = 0, cond[k].cnt = 0;\<close>\<close>

definition clear_cond :: "RECDATA \<Rightarrow> PATEXT list" where
  "clear_cond rd = replicate (cnt rd) \<lparr>supp = 0, oxs = []\<rparr>"

section \<open>Sequence mining without item weights\<close>

text \<open>
  \<open>recurse rd exts z len st\<close> is \<^verbatim>\<open>recurse(exts, z, len, rd)\<close>, and \<open>rec_loop\<close> is
  its \<^verbatim>\<open>for\<close> loop from item \<open>i\<close> on, with \<open>len\<close> already incremented, \<open>c\<close> saying
  whether \<^verbatim>\<open>cond\<close> is not \<^verbatim>\<open>NULL\<close>, and the current \<^verbatim>\<open>max\<close> and \<^verbatim>\<open>s\<close>.
  The loop returns the final \<^verbatim>\<open>s\<close> and \<^verbatim>\<open>max\<close>. The array \<^verbatim>\<open>exts\<close> has
  \<^verbatim>\<open>rd->cnt\<close> elements.
\<close>

function recurse :: "RECDATA \<Rightarrow> PATEXT list \<Rightarrow> nat \<Rightarrow> nat \<Rightarrow> nat store \<Rightarrow> int \<times> nat store"
  and rec_loop :: "RECDATA \<Rightarrow> PATEXT list \<Rightarrow> nat \<Rightarrow> bool \<Rightarrow> nat \<Rightarrow> int \<Rightarrow> int \<Rightarrow> nat store
    \<Rightarrow> int \<times> int \<times> nat store" where
  "recurse rd exts z len st =
     (if len + 1 \<le> zmax rd then
        (case malloc (entered st len) of
           (ok, st1) \<Rightarrow>
             if \<not> ok then (- 1, st1)
             else (case rec_loop rd exts (len + 1) True 0 0 0 st1 of
                     (s, mx, st2) \<Rightarrow> (if s < 0 then s else mx, st2)))
      else (case rec_loop rd exts (len + 1) False 0 0 0 (entered st len) of
              (s, mx, st2) \<Rightarrow> (if s < 0 then s else mx, st2)))"
| "rec_loop rd exts len c i mx s st =
     (if \<not> i < cnt rd then (s, mx, st)
      else if supp (exts ! i) < smin rd then rec_loop rd exts len c (i + 1) mx s st
      else
        (let e = exts ! i;
             mx1 = (if supp e > mx then supp e else mx);
             (skip, st1) = closed_filter rd e len st
         in if skip then rec_loop rd exts len c (i + 1) mx1 s st1
            else
              (let st2 = st1\<lparr>report := isr_add (report st1) i (supp e),
                             unanchored := unanchored st1
                               + missing_anchors (occs st1) (oxs e) (len - 1)\<rparr>;
                   (brk, s1, st3) =
                     (if \<not> c then (False, 0, st2)
                      else (case project (\<lambda>x. x) (occs st2) (oxs e) (clear_cond rd, 0) of
                              (cond, z1) \<Rightarrow>
                                if z1 > 0
                                then (case recurse rd cond z1 len st2 of
                                        (s', st') \<Rightarrow> (s' < 0, s', st'))
                                else (False, s, st2)))
               in if brk then (s1, mx1, st3)
                  else if \<not> closed_mode rd \<or> s1 < supp e then
                    (case reported st3 (isr_report (report st3)) of
                       (r, st4) \<Rightarrow>
                         if r < 0 then (- 1, mx1, st4)
                         else rec_loop rd exts len c (i + 1) mx1 s1
                                (st4\<lparr>report := isr_remove (report st4) 1\<rparr>))
                  else rec_loop rd exts len c (i + 1) mx1 s1
                         (st3\<lparr>report := isr_remove (report st3) 1\<rparr>))))"
  by pat_completeness auto

termination
  by (relation "inv_image (less_than <*lex*> less_than)
        (\<lambda>x. case x of
           Inl (rd, exts, z, len, st) \<Rightarrow> (2 * (zmax rd + 1 - len) + 1, 0)
         | Inr (rd, exts, len, c, i, mx, s, st) \<Rightarrow>
             (if c then 2 * (zmax rd + 1 - len) + 2 else 0, cnt rd - i))")
     auto

declare recurse.simps [simp del] rec_loop.simps [simp del]

section \<open>Sequence mining with weight averaging\<close>

text \<open>\<^verbatim>\<open>for (k = 0; k < len; k++) rd->wgts[k] = 0;\<close>, the indices as a list.\<close>

fun zero_wgts :: "nat list \<Rightarrow> real list \<Rightarrow> real list" where
  "zero_wgts [] ws = ws"
| "zero_wgts (k # ks) ws = zero_wgts ks (ws[k := 0])"

text \<open>
  \<^verbatim>\<open>for (m = 0; m < len; m++) rd->wgts[m] += (double)o->wgt *o->ips[m]->wgt;\<close>
  The conversion of a 32-bit integer to a double is exact; the product and the sum are
  rounded with \<open>rnd\<close>.
\<close>

fun add_wgts :: "(real \<Rightarrow> real) \<Rightarrow> WITEM PATOCC \<Rightarrow> nat list \<Rightarrow> real list \<Rightarrow> real list" where
  "add_wgts rnd po [] ws = ws"
| "add_wgts rnd po (m # ms) ws =
     add_wgts rnd po ms
       (ws[m := rnd (ws ! m + rnd (real_of_int (wgt po) * w_wgt (items po ! the (ips po ! m))))])"

text \<open>\<^verbatim>\<open>for (k = 0; k < e->cnt; k++) { o = e->oxs[k].occ; ... }\<close>\<close>

fun sum_wgts :: "(real \<Rightarrow> real) \<Rightarrow> WITEM PATOCC list \<Rightarrow> OCCEXT list \<Rightarrow> nat \<Rightarrow> real list
    \<Rightarrow> real list" where
  "sum_wgts rnd os [] len ws = ws"
| "sum_wgts rnd os (x # xs) len ws =
     sum_wgts rnd os xs len (add_wgts rnd (os ! occ x) [0..<len] ws)"

function rec_iw :: "RECDATA \<Rightarrow> PATEXT list \<Rightarrow> nat \<Rightarrow> nat \<Rightarrow> WITEM store \<Rightarrow> int \<times> WITEM store"
  and rec_iw_loop :: "RECDATA \<Rightarrow> PATEXT list \<Rightarrow> nat \<Rightarrow> bool \<Rightarrow> nat \<Rightarrow> int \<Rightarrow> int \<Rightarrow> WITEM store
    \<Rightarrow> int \<times> int \<times> WITEM store" where
  "rec_iw rd exts z len st =
     (if len + 1 \<le> zmax rd then
        (case malloc (entered st len) of
           (ok, st1) \<Rightarrow>
             if \<not> ok then (- 1, st1)
             else (case rec_iw_loop rd exts (len + 1) True 0 0 0 st1 of
                     (s, mx, st2) \<Rightarrow> (if s < 0 then s else mx, st2)))
      else (case rec_iw_loop rd exts (len + 1) False 0 0 0 (entered st len) of
              (s, mx, st2) \<Rightarrow> (if s < 0 then s else mx, st2)))"
| "rec_iw_loop rd exts len c i mx s st =
     (if \<not> i < cnt rd then (s, mx, st)
      else if supp (exts ! i) < smin rd then rec_iw_loop rd exts len c (i + 1) mx s st
      else
        (let e = exts ! i;
             mx1 = (if supp e > mx then supp e else mx);
             st0 = st\<lparr>pat := (pat st)[len - 1 := i],
                      occs := anchor (oxs e) (len - 1) (occs st)\<rparr>;
             (skip, st1) = closed_filter_iw rd e len st0
         in if skip then rec_iw_loop rd exts len c (i + 1) mx1 s st1
            else
              (let (brk, s1, st3) =
                     (if \<not> c then (False, 0, st1)
                      else (case project w_item (occs st1) (oxs e) (clear_cond rd, 0) of
                              (cond, z1) \<Rightarrow>
                                if z1 > 0
                                then (case rec_iw rd cond z1 len st1 of
                                        (s', st') \<Rightarrow> (s' < 0, s', st'))
                                else (False, s, st1)))
               in if brk then (s1, mx1, st3)
                  else if closed_mode rd \<and> s1 \<ge> supp e
                  then rec_iw_loop rd exts len c (i + 1) mx1 s1 st3
                  else
                    (let st4 = st3\<lparr>wgts := sum_wgts (dbl st3) (occs st3) (oxs e) len
                                  (zero_wgts [0..<len] (wgts st3))\<rparr>
                     in case reported st4
                               (isr_isetx (report st4) (pat st4) len (wgts st4) (supp e)) of
                          (r, st5) \<Rightarrow>
                            if r < 0 then (- 1, mx1, st5)
                            else rec_iw_loop rd exts len c (i + 1) mx1 s1 st5))))"
  by pat_completeness auto
termination
  by (relation "inv_image (less_than <*lex*> less_than)
        (\<lambda>x. case x of
           Inl (rd, exts, z, len, st) \<Rightarrow> (2 * (zmax rd + 1 - len) + 1, 0)
         | Inr (rd, exts, len, c, i, mx, s, st) \<Rightarrow>
             (if c then 2 * (zmax rd + 1 - len) + 2 else 0, cnt rd - i))")
     auto

declare rec_iw.simps [simp del] rec_iw_loop.simps [simp del]

section \<open>The two entry points\<close>

text \<open>
  Modelled from the spec: the transaction bag (\<^verbatim>\<open>tract.h\<close>) is not part of the source
  file. A transaction has an integer weight and its items in order; the bag knows the
  number of items of the item base, its transactions, their total weight and the total
  number of item instances.
\<close>

record 'a TRACT =
  ta_wgt :: int
  ta_items :: "'a list"

record 'a TABAG =
  tracts :: "'a TRACT list"
  itemcnt :: nat

definition tbg_wgt :: "'a TABAG \<Rightarrow> int" where
  "tbg_wgt bag = sum_list (map ta_wgt (tracts bag))"

definition tbg_extent :: "'a TABAG \<Rightarrow> nat" where
  "tbg_extent bag = sum_list (map (\<lambda>t. length (ta_items t)) (tracts bag))"

text \<open>
  One pattern occurrence per transaction:
  \<^verbatim>\<open>o->wgt = ta_wgt(t); o->ips = p; p += ta_size(t); o->items = ta_items(t);\<close>
\<close>

definition mk_occs :: "'a TABAG \<Rightarrow> 'a PATOCC list" where
  "mk_occs bag =
     map (\<lambda>t. \<lparr>wgt = ta_wgt t, items = ta_items t,
               ips = replicate (length (ta_items t)) None\<rparr>) (tracts bag)"

text \<open>
  The extensions of the empty sequence:
  \<^verbatim>\<open>for (j = 0; j < n; j++) { o = occs +j; for (s = o->items; *s >= 0; s++) { ... } }\<close>
  whose body is the one of \<open>tail_walk\<close>, from position \<open>0\<close>.
\<close>

fun root_exts :: "('a \<Rightarrow> nat) \<Rightarrow> nat \<Rightarrow> 'a PATOCC list \<Rightarrow> PATEXT list \<Rightarrow> PATEXT list" where
  "root_exts key j [] exts = exts"
| "root_exts key j (po # os) exts =
     root_exts key (j + 1) os (fst (tail_walk key j (wgt po) 0 (items po) (exts, 0)))"

definition mk_rd :: "'a TABAG \<Rightarrow> int \<Rightarrow> int \<Rightarrow> int \<Rightarrow> ISREPORT \<Rightarrow> RECDATA" where
  "mk_rd tabag tg sm md rep =
     \<lparr>target = tg, mode = md, cnt = itemcnt tabag, zmax = isr_zmax rep,
      smin = (if sm > 0 then sm else 1)\<rparr>"

text \<open>
  The store at the call of the recursion. A fresh block of items or weights is modelled
  as zeros; the engine writes such an entry before it reads it. \<open>rnd\<close> is the rounding
  of the machine.
\<close>

definition mk_store :: "'a TABAG \<Rightarrow> ISREPORT \<Rightarrow> bool list \<Rightarrow> (real \<Rightarrow> real) \<Rightarrow> nat \<Rightarrow> 'a store" where
  "mk_store tabag rep hp rnd nf =
     \<lparr>frqs = replicate (itemcnt tabag) 0, occs = mk_occs tabag,
      pat = replicate (itemcnt tabag) 0, wgts = replicate (itemcnt tabag) 0,
      report = rep, heap = hp, dbl = rnd, failed = nf, deepest = 0, unanchored = 0\<rparr>"

text \<open>
  Three blocks are allocated before the recursion; each may fail. The engine without item
  weights has no doubles, its store carries the identity as rounding.
\<close>

fun mallocs :: "nat \<Rightarrow> bool list \<Rightarrow> bool \<times> bool list" where
  "mallocs 0 hp = (True, hp)"
| "mallocs (Suc n) [] = (True, [])"
| "mallocs (Suc n) (b # bs) = (if b then mallocs n bs else (False, bs))"

definition sequoia :: "nat TABAG \<Rightarrow> int \<Rightarrow> int \<Rightarrow> int \<Rightarrow> ISREPORT \<Rightarrow> bool list
    \<Rightarrow> int \<times> ISREPORT" where
  "sequoia tabag tg sm md rep hp =
     (let rd = mk_rd tabag tg sm md rep
      in if tbg_wgt tabag < smin rd then (0, rep)
         else if cnt rd \<le> 0 then isr_report rep
         else (case mallocs 3 hp of
                 (ok, hp1) \<Rightarrow>
                   if \<not> ok then (- 1, rep)
                   else
                     (let exts = root_exts (\<lambda>x. x) 0 (mk_occs tabag) (clear_cond rd)
                      in case recurse rd exts (tbg_extent tabag) 0
                               (mk_store tabag rep hp1 (\<lambda>x. x) 0) of
                           (r, st) \<Rightarrow>
                             (case (if r \<ge> 0 \<and> (r < tbg_wgt tabag \<or> md AND ISR_CLOSED = 0)
                                    then isr_report (report st) else (r, report st)) of
                                (r1, rep1) \<Rightarrow> (if r1 < 0 then r1 else 0, rep1)))))"

definition sequoia_iw :: "(real \<Rightarrow> real) \<Rightarrow> WITEM TABAG \<Rightarrow> int \<Rightarrow> int \<Rightarrow> int \<Rightarrow> ISREPORT
    \<Rightarrow> bool list \<Rightarrow> int \<times> ISREPORT" where
  "sequoia_iw rnd tabag tg sm md rep hp =
     (let rd = mk_rd tabag tg sm md rep
      in if tbg_wgt tabag < smin rd then (0, rep)
         else if cnt rd \<le> 0
         then (case isr_isetx rep [] 0 [] (tbg_wgt tabag) of
                 (r, rep1) \<Rightarrow> (if r < 0 then - 1 else 0, rep1))
         else (case mallocs 3 hp of
                 (ok, hp1) \<Rightarrow>
                   if \<not> ok then (- 1, rep)
                   else
                     (let exts = root_exts w_item 0 (mk_occs tabag) (clear_cond rd)
                      in case rec_iw rd exts (tbg_extent tabag) 0 (mk_store tabag rep hp1 rnd 0) of
                           (r, st) \<Rightarrow>
                             (case (if r < tbg_wgt tabag \<or> md AND ISR_CLOSED = 0
                                    then (case isr_isetx (report st) [] 0 [] (tbg_wgt tabag) of
                                            (r', rep') \<Rightarrow> (if r' < 0 then - 1 else 0, rep'))
                                    else (r, report st)) of
                                (r1, rep1) \<Rightarrow> (if r1 < 0 then r1 else 0, rep1)))))"

text \<open>
  \<^verbatim>\<open>main\<close> translates the target character, \<^verbatim>\<open>'s'\<close> to \<^verbatim>\<open>ISR_ALL\<close> and
  \<^verbatim>\<open>'c'\<close> to \<^verbatim>\<open>ISR_CLOSED\<close>, stops with \<^verbatim>\<open>error(E_TARGET, ...)\<close> on any
  other character, and calls the engine with the literal mode \<open>0\<close>:
  \<^verbatim>\<open>sequoia(tabag, target, smin, 0, report)\<close>, here for a bag without item weights.
\<close>

datatype error = E_TARGET

definition main_search :: "nat TABAG \<Rightarrow> char \<Rightarrow> int \<Rightarrow> ISREPORT \<Rightarrow> bool list
    \<Rightarrow> error + int \<times> ISREPORT" where
  "main_search tabag tc sm rep hp =
     (if tc = CHR ''s'' then Inr (sequoia tabag ISR_ALL sm 0 rep hp)
      else if tc = CHR ''c'' then Inr (sequoia tabag ISR_CLOSED sm 0 rep hp)
      else Inl E_TARGET)"

section \<open>Example inputs\<close>

text \<open>
  The bag of the spec's scenarios 1 and 2, with \<open>a = 0\<close>, \<open>b = 1\<close>, \<open>c = 2\<close>:
  \<open>(a,b,c)\<close>, \<open>(a,c)\<close>, \<open>(a,b)\<close>, each of weight \<open>1\<close>.
\<close>

definition bag_abc :: "nat TABAG" where
  "bag_abc =
     \<lparr>tracts = [\<lparr>ta_wgt = 1, ta_items = [0, 1, 2]\<rparr>, \<lparr>ta_wgt = 1, ta_items = [0, 2]\<rparr>,
                \<lparr>ta_wgt = 1, ta_items = [0, 1]\<rparr>],
      itemcnt = 3\<rparr>"


text \<open>The weighted bag of scenario 4: \<open>(a:1, b:3)\<close> of weight 1, \<open>(a:2, b:4)\<close> of weight 2.\<close>

definition bag_w :: "WITEM TABAG" where
  "bag_w =
     \<lparr>tracts = [\<lparr>ta_wgt = 1, ta_items = [\<lparr>w_item = 0, w_wgt = 1\<rparr>, \<lparr>w_item = 1, w_wgt = 3\<rparr>]\<rparr>,
                \<lparr>ta_wgt = 2, ta_items = [\<lparr>w_item = 0, w_wgt = 2\<rparr>, \<lparr>w_item = 1, w_wgt = 4\<rparr>]\<rparr>],
      itemcnt = 2\<rparr>"


text \<open>A reporter that has written nothing yet and whose writes succeed.\<close>

definition new_report :: "nat \<Rightarrow> nat \<Rightarrow> int \<Rightarrow> ISREPORT" where
  "new_report zmn zmx w =
     \<lparr>r_zmin = zmn, r_zmax = zmx, r_wgt = w, r_stack = [], r_out = [], r_rets = []\<rparr>"

text \<open>
  The store and the extensions of the empty sequence that \<^verbatim>\<open>sequoia\<close> and
  \<^verbatim>\<open>sequoia_iw\<close> build for these bags, in all-patterns and in closed mode.
\<close>

definition rd_abc :: "int \<Rightarrow> RECDATA" where
  "rd_abc md = mk_rd bag_abc md 2 md (new_report 0 4 3)"

definition st_abc :: "nat store" where
  "st_abc = mk_store bag_abc (new_report 0 4 3) [] (\<lambda>x. x) 0"

definition exts_abc :: "PATEXT list" where
  "exts_abc = root_exts (\<lambda>x. x) 0 (mk_occs bag_abc) (clear_cond (rd_abc 0))"

definition rd_w :: "int \<Rightarrow> RECDATA" where
  "rd_w md = mk_rd bag_w md 3 md (new_report 0 4 3)"

definition st_w :: "WITEM store" where
  "st_w = mk_store bag_w (new_report 0 4 3) [] (\<lambda>x. x) 0"

definition exts_w :: "PATEXT list" where
  "exts_w = root_exts w_item 0 (mk_occs bag_w) (clear_cond (rd_w 0))"

text \<open>The weighted store with the occurrences of item \<open>b\<close> anchored at position \<open>0\<close>.\<close>

definition st_w_b :: "WITEM store" where
  "st_w_b = st_w\<lparr>occs := anchor (oxs (exts_w ! 1)) 0 (occs st_w)\<rparr>"




text \<open>
  Two transactions \<open>(a,c,b)\<close> and \<open>(d,a,c,b)\<close> with \<open>a = 0\<close>, \<open>b = 1\<close>,
  \<open>c = 2\<close>, \<open>d = 3\<close>, the store in which the occurrences of \<open>a\<close> are anchored at
  pattern position \<open>0\<close>, and the extension of the pattern \<open>(a)\<close> by \<open>b\<close>, as the
  projection builds it: \<open>c\<close> lies between \<open>a\<close> and \<open>b\<close> in both transactions,
  and nothing lies in front of \<open>a\<close> in the first.
\<close>

definition bag_acb :: "nat TABAG" where
  "bag_acb =
     \<lparr>tracts = [\<lparr>ta_wgt = 1, ta_items = [0, 2, 1]\<rparr>, \<lparr>ta_wgt = 1, ta_items = [3, 0, 2, 1]\<rparr>],
      itemcnt = 4\<rparr>"

definition st_acb :: "nat store" where
  "st_acb =
     (mk_store bag_acb (new_report 0 4 2) [] (\<lambda>x. x) 0)
       \<lparr>occs := anchor (oxs (root_exts (\<lambda>x. x) 0 (mk_occs bag_acb)
                                  (replicate 4 \<lparr>supp = 0, oxs = []\<rparr>) ! 0))
                       0 (mk_occs bag_acb)\<rparr>"

definition cond_acb :: "PATEXT list" where
  "cond_acb =
     fst (project (\<lambda>x. x) (occs st_acb)
            (oxs (root_exts (\<lambda>x. x) 0 (mk_occs bag_acb) (replicate 4 \<lparr>supp = 0, oxs = []\<rparr>) ! 0))
            (replicate 4 \<lparr>supp = 0, oxs = []\<rparr>, 0))"

definition ext_acb :: PATEXT where
  "ext_acb = cond_acb ! 1"

definition rd_acb :: RECDATA where
  "rd_acb = mk_rd bag_acb ISR_CLOSED 1 ISR_CLOSED (new_report 0 4 2)"

text \<open>
  The same with item weights \<open>1\<close>; \<^verbatim>\<open>closed_iw\<close> is called after the anchors of
  \<open>b\<close> have been written, too.
\<close>

definition bag_wacb :: "WITEM TABAG" where
  "bag_wacb =
     \<lparr>tracts = [\<lparr>ta_wgt = 1, ta_items = [\<lparr>w_item = 0, w_wgt = 1\<rparr>, \<lparr>w_item = 2, w_wgt = 1\<rparr>,
                                         \<lparr>w_item = 1, w_wgt = 1\<rparr>]\<rparr>,
                \<lparr>ta_wgt = 1, ta_items = [\<lparr>w_item = 3, w_wgt = 1\<rparr>, \<lparr>w_item = 0, w_wgt = 1\<rparr>,
                                         \<lparr>w_item = 2, w_wgt = 1\<rparr>, \<lparr>w_item = 1, w_wgt = 1\<rparr>]\<rparr>],
      itemcnt = 4\<rparr>"

definition ext_wacb :: PATEXT where
  "ext_wacb =
     fst (project w_item (mk_occs bag_wacb)
            (oxs (root_exts w_item 0 (mk_occs bag_wacb) (replicate 4 \<lparr>supp = 0, oxs = []\<rparr>) ! 0))
            (replicate 4 \<lparr>supp = 0, oxs = []\<rparr>, 0)) ! 1"

definition st_wacb :: "WITEM store" where
  "st_wacb =
     (mk_store bag_wacb (new_report 0 4 2) [] (\<lambda>x. x) 0)
       \<lparr>occs := anchor (oxs ext_wacb) 1
                  (anchor (oxs (root_exts w_item 0 (mk_occs bag_wacb)
                                  (replicate 4 \<lparr>supp = 0, oxs = []\<rparr>) ! 0))
                          0 (mk_occs bag_wacb))\<rparr>"



section \<open>Notions used in the statements and proofs\<close>

text \<open>
  The invariant of the data model on one pattern occurrence: no item occurs twice in the
  transaction, and every item identifier is below the number \<open>m\<close> of items.
\<close>

definition wf_occ :: "('a \<Rightarrow> nat) \<Rightarrow> nat \<Rightarrow> 'a PATOCC \<Rightarrow> bool" where
  "wf_occ key m po = (distinct (map key (items po)) \<and> (\<forall>t\<in>set (items po). key t < m))"

text \<open>Every counter that is not zero is on the touch list.\<close>

definition touched :: "nat list \<Rightarrow> nat list \<Rightarrow> bool" where
  "touched f b = (\<forall>j<length f. f ! j \<noteq> 0 \<longrightarrow> j \<in> set b)"

text \<open>
  The counters after the gaps \<open>ps\<close> have been scanned: each counts the gaps that
  contain its item.
\<close>

definition counted :: "nat list \<Rightarrow> nat list list \<Rightarrow> bool" where
  "counted f ps = (\<forall>a<length f. f ! a = length (filter (\<lambda>g. a \<in> set g) ps))"

text \<open>
  The gaps as the claim describes them, by positions: the item \<open>a\<close> lies in gap \<open>g\<close>
  of the transaction \<open>ts\<close> with the anchors \<open>ps\<close> if it stands at a position in front of
  the anchor \<open>ps ! g\<close> and, for \<open>g > 0\<close>, behind the anchor \<open>ps ! (g - 1)\<close>.
\<close>

definition in_gap :: "('a \<Rightarrow> nat) \<Rightarrow> 'a list \<Rightarrow> nat option list \<Rightarrow> nat \<Rightarrow> nat \<Rightarrow> bool" where
  "in_gap key ts ps g a =
     (\<exists>q\<in>{0..<length ts}. key (ts ! q) = a \<and> q < the (ps ! g)
                            \<and> (0 < g \<longrightarrow> the (ps ! (g - 1)) < q))"

text \<open>The item identifiers in the gap in front of pattern position \<open>n\<close>.\<close>

definition gap_keys :: "('a \<Rightarrow> nat) \<Rightarrow> 'a PATOCC list \<Rightarrow> nat \<Rightarrow> OCCEXT \<Rightarrow> nat list" where
  "gap_keys key os n x = map key (gap (os ! occ x) n)"

text \<open>
  Names for the parts of one iteration of the loop of \<^verbatim>\<open>recurse\<close>: the new maximum,
  the store after \<^verbatim>\<open>isr_add\<close> and after \<^verbatim>\<open>isr_remove\<close>, and the outcome of
  the block that computes the conditional extensions and recurses (whether the loop is
  left, the value of \<^verbatim>\<open>s\<close>, the store).
\<close>

definition mx_next :: "int \<Rightarrow> PATEXT \<Rightarrow> int" where
  "mx_next mx e = (if supp e > mx then supp e else mx)"

definition st_added :: "nat store \<Rightarrow> nat \<Rightarrow> PATEXT \<Rightarrow> nat \<Rightarrow> nat store" where
  "st_added st i e len =
     st\<lparr>report := isr_add (report st) i (supp e),
        unanchored := unanchored st + missing_anchors (occs st) (oxs e) (len - 1)\<rparr>"

definition st_popped :: "nat store \<Rightarrow> nat store" where
  "st_popped st = st\<lparr>report := isr_remove (report st) 1\<rparr>"

definition child :: "RECDATA \<Rightarrow> PATEXT \<Rightarrow> nat \<Rightarrow> bool \<Rightarrow> int \<Rightarrow> nat store \<Rightarrow> bool \<times> int \<times> nat store" where
  "child rd e len c s st =
     (if \<not> c then (False, 0, st)
      else (case project (\<lambda>x. x) (occs st) (oxs e) (clear_cond rd, 0) of
              (cond, z1) \<Rightarrow>
                if z1 > 0
                then (case recurse rd cond z1 len st of (s', st') \<Rightarrow> (s' < 0, s', st'))
                else (False, s, st)))"

text \<open>
  The same for \<^verbatim>\<open>rec_iw\<close>: the store after the pattern item and the anchors have
  been written, the recursion block, and the store after the weights have been summed.
\<close>

definition st_anchored :: "WITEM store \<Rightarrow> nat \<Rightarrow> nat \<Rightarrow> PATEXT \<Rightarrow> WITEM store" where
  "st_anchored st len i e =
     st\<lparr>pat := (pat st)[len - 1 := i], occs := anchor (oxs e) (len - 1) (occs st)\<rparr>"

definition st_weighed :: "WITEM store \<Rightarrow> PATEXT \<Rightarrow> nat \<Rightarrow> WITEM store" where
  "st_weighed st e len =
     st\<lparr>wgts := sum_wgts (dbl st) (occs st) (oxs e) len (zero_wgts [0..<len] (wgts st))\<rparr>"

definition child_iw :: "RECDATA \<Rightarrow> PATEXT \<Rightarrow> nat \<Rightarrow> bool \<Rightarrow> int \<Rightarrow> WITEM store
    \<Rightarrow> bool \<times> int \<times> WITEM store" where
  "child_iw rd e len c s st =
     (if \<not> c then (False, 0, st)
      else (case project w_item (occs st) (oxs e) (clear_cond rd, 0) of
              (cond, z1) \<Rightarrow>
                if z1 > 0
                then (case rec_iw rd cond z1 len st of (s', st') \<Rightarrow> (s' < 0, s', st'))
                else (False, s, st)))"

text \<open>
  The supports of the frequent extension items from item \<open>i\<close> on, and the result the
  recursion should return: their maximum, \<open>0\<close> if there is none.
\<close>

definition freq_supps :: "RECDATA \<Rightarrow> PATEXT list \<Rightarrow> nat \<Rightarrow> int list" where
  "freq_supps rd exts i =
     map (\<lambda>j. supp (exts ! j)) (filter (\<lambda>j. smin rd \<le> supp (exts ! j)) [i..<cnt rd])"

definition max_supp :: "RECDATA \<Rightarrow> PATEXT list \<Rightarrow> int" where
  "max_supp rd exts =
     (if freq_supps rd exts 0 = [] then 0 else Max (set (freq_supps rd exts 0)))"

text \<open>
  A returned status \<open>r\<close> and the number of failed calls before and after: a negative
  status is \<open>-1\<close> and stands for exactly one failed call.
\<close>

definition ret_ok :: "int \<Rightarrow> nat \<Rightarrow> nat \<Rightarrow> bool" where
  "ret_ok r f f' = ((r < 0 \<longrightarrow> r = - 1) \<and> f' = f + (if r < 0 then 1 else 0))"

subsection \<open>Supports, represented sequences and the expected output\<close>

text \<open>
  The invariants of the input: in every transaction no item occurs twice and every
  item identifier is below the number of items.
\<close>

definition wf_bag :: "('a \<Rightarrow> nat) \<Rightarrow> 'a TABAG \<Rightarrow> bool" where
  "wf_bag key bag =
     (\<forall>t\<in>set (tracts bag). distinct (map key (ta_items t))
        \<and> (\<forall>a\<in>set (ta_items t). key a < itemcnt bag))"



text \<open>
  The same invariant on the array of pattern occurrences.
\<close>

definition wf_occs :: "('a \<Rightarrow> nat) \<Rightarrow> nat \<Rightarrow> 'a PATOCC list \<Rightarrow> bool" where
  "wf_occs key k os = (\<forall>po\<in>set os. wf_occ key k po)"

text \<open>
  The item identifiers of the transaction of occurrence \<open>j\<close>.
\<close>

definition keys :: "('a \<Rightarrow> nat) \<Rightarrow> 'a PATOCC list \<Rightarrow> nat \<Rightarrow> nat list" where
  "keys key os j = map key (items (os ! j))"

text \<open>
  The support of a sequence over the array of pattern occurrences.
\<close>

definition psupp :: "('a \<Rightarrow> nat) \<Rightarrow> 'a PATOCC list \<Rightarrow> nat list \<Rightarrow> int" where
  "psupp key os p =
     sum_list (map (\<lambda>j. wgt (os ! j)) (filter (\<lambda>j. subseq p (keys key os j)) [0..<length os]))"

text \<open>
  No sum of transaction weights wraps around: no weight is negative and their total is
  at most \<^verbatim>\<open>INT_MAX\<close>.
\<close>

definition no_wrap :: "'a PATOCC list \<Rightarrow> bool" where
  "no_wrap os = ((\<forall>po\<in>set os. 0 \<le> wgt po) \<and> sum_list (map wgt os) < 2 ^ 31)"

text \<open>
  A pattern extension that represents the sequence \<open>p\<close>: its occurrence extensions
  are the occurrences whose transaction contains \<open>p\<close>, in the order of the array, each
  pointing at the last item of \<open>p\<close>, and its support is the sum of their weights.
\<close>

definition ext_ok :: "('a \<Rightarrow> nat) \<Rightarrow> 'a PATOCC list \<Rightarrow> nat list \<Rightarrow> PATEXT \<Rightarrow> bool" where
  "ext_ok key os p e =
     (map occ (oxs e) = filter (\<lambda>j. subseq p (keys key os j)) [0..<length os]
      \<and> (\<forall>x\<in>set (oxs e). item x < length (keys key os (occ x))
                            \<and> keys key os (occ x) ! item x = last p)
      \<and> supp e = sum_list (map (\<lambda>x. wgt (os ! occ x)) (oxs e)))"

text \<open>
  An array of pattern extensions that represents the extensions of the sequence
  \<open>pre\<close> by one item.
\<close>

definition exts_ok :: "('a \<Rightarrow> nat) \<Rightarrow> 'a PATOCC list \<Rightarrow> nat list \<Rightarrow> PATEXT list \<Rightarrow> bool" where
  "exts_ok key os pre exts = (\<forall>t<length exts. ext_ok key os (pre @ [t]) (exts ! t))"

text \<open>
  The index of the first element with item identifier \<open>t\<close>.
\<close>

definition hit :: "('a \<Rightarrow> nat) \<Rightarrow> nat \<Rightarrow> 'a list \<Rightarrow> nat" where
  "hit key t ts = length (takeWhile (\<lambda>y. key y \<noteq> t) ts)"

text \<open>
  The items behind the extension item of an occurrence extension.
\<close>

definition tail_of :: "'a PATOCC list \<Rightarrow> OCCEXT \<Rightarrow> 'a list" where
  "tail_of os x = drop (item x + 1) (items (os ! occ x))"

text \<open>
  The occurrence extension that the projection appends for the tail item \<open>t\<close>.
\<close>

definition proj_ext :: "('a \<Rightarrow> nat) \<Rightarrow> 'a PATOCC list \<Rightarrow> nat \<Rightarrow> OCCEXT \<Rightarrow> OCCEXT" where
  "proj_ext key os t x = \<lparr>item = item x + 1 + hit key t (tail_of os x), occ = occ x\<rparr>"

text \<open>
  The occurrence extensions whose tail contains the item \<open>t\<close>.
\<close>

definition sel :: "('a \<Rightarrow> nat) \<Rightarrow> 'a PATOCC list \<Rightarrow> nat \<Rightarrow> OCCEXT list \<Rightarrow> OCCEXT list" where
  "sel key os t xs = filter (\<lambda>x. t \<in> key ` set (tail_of os x)) xs"

text \<open>
  The occurrence extension of item \<open>t\<close> in transaction \<open>j\<close> for the empty sequence.
\<close>

definition root_ext :: "('a \<Rightarrow> nat) \<Rightarrow> 'a PATOCC list \<Rightarrow> nat \<Rightarrow> nat \<Rightarrow> OCCEXT" where
  "root_ext key os t j = \<lparr>item = hit key t (items (os ! j)), occ = j\<rparr>"

text \<open>
  What the reporter writes for the sequence \<open>p\<close>: nothing if it is shorter than
  \<open>zmn\<close>.
\<close>

definition report_of :: "nat \<Rightarrow> nat PATOCC list \<Rightarrow> nat list \<Rightarrow> (nat list \<times> real list \<times> int) list" where
  "report_of zmn os p = (if zmn \<le> length p then [(p, [], psupp (\<lambda>x. x) os p)] else [])"

text \<open>
  What the depth-first search writes below the sequence \<open>pre\<close> when \<open>d\<close> more
  levels of conditional extensions may be built: for each frequent item in ascending
  order, first the sequences below the extended sequence, then the extended sequence.
\<close>

fun emit :: "nat \<Rightarrow> nat PATOCC list \<Rightarrow> int \<Rightarrow> nat \<Rightarrow> nat \<Rightarrow> nat list
    \<Rightarrow> (nat list \<times> real list \<times> int) list" where
  "emit zmn os sm k 0 pre =
     concat (map (\<lambda>i. if sm \<le> psupp (\<lambda>x. x) os (pre @ [i])
                       then report_of zmn os (pre @ [i]) else []) [0..<k])"
| "emit zmn os sm k (Suc d) pre =
     concat (map (\<lambda>i. if sm \<le> psupp (\<lambda>x. x) os (pre @ [i])
                       then emit zmn os sm k d (pre @ [i]) @ report_of zmn os (pre @ [i])
                       else []) [0..<k])"

text \<open>
  The part of \<open>emit\<close> for one item; \<open>c\<close> says whether conditional extensions are built.
\<close>

definition emit_item :: "nat \<Rightarrow> nat PATOCC list \<Rightarrow> int \<Rightarrow> nat \<Rightarrow> bool \<Rightarrow> nat \<Rightarrow> nat list \<Rightarrow> nat
    \<Rightarrow> (nat list \<times> real list \<times> int) list" where
  "emit_item zmn os sm k c d pre i =
     (if sm \<le> psupp (\<lambda>x. x) os (pre @ [i])
      then (if c then emit zmn os sm k d (pre @ [i]) else []) @ report_of zmn os (pre @ [i])
      else [])"

text \<open>
  The situation in which all-patterns mode is analysed: no call fails, no sum of weights
  wraps around, the array of extensions has one element per item and represents the
  extensions of the sequence on the reporter's stack, and the minimum support is positive.
\<close>

definition all_ok :: "RECDATA \<Rightarrow> PATEXT list \<Rightarrow> nat store \<Rightarrow> bool" where
  "all_ok rd exts st =
     (\<not> closed_mode rd \<and> 1 \<le> smin rd \<and> heap st = [] \<and> r_rets (report st) = []
      \<and> length exts = cnt rd \<and> wf_occs (\<lambda>x. x) (cnt rd) (occs st) \<and> no_wrap (occs st)
      \<and> exts_ok (\<lambda>x. x) (occs st) (map fst (r_stack (report st))) exts)"


definition emitted_item :: "RECDATA \<Rightarrow> nat store \<Rightarrow> bool \<Rightarrow> nat \<Rightarrow> nat
    \<Rightarrow> (nat list \<times> real list \<times> int) list" where
  "emitted_item rd st c d i =
     emit_item (r_zmin (report st)) (occs st) (smin rd) (cnt rd) c d
       (map fst (r_stack (report st))) i"


subsection \<open>The reporting policy\<close>



subsection \<open>The frames of the recursion\<close>

text \<open>
  Every occurrence has as many anchor slots as its transaction has items.
\<close>

definition ips_sized :: "'a PATOCC list \<Rightarrow> bool" where
  "ips_sized os = (\<forall>po\<in>set os. length (ips po) = length (items po))"

text \<open>
  Two arrays of occurrences with the same transactions and as many anchor slots.
\<close>

definition same_shape :: "'a PATOCC list \<Rightarrow> 'a PATOCC list \<Rightarrow> bool" where
  "same_shape os os' =
     (length os' = length os
      \<and> (\<forall>j<length os. items (os' ! j) = items (os ! j)
                        \<and> length (ips (os' ! j)) = length (ips (os ! j))))"

text \<open>
  What holds of the array of extensions with which \<^verbatim>\<open>recurse\<close> is called for a
  pattern of length \<open>len\<close>: the occurrences satisfy the invariant of the data model,
  and the occurrence extensions of an item belong to distinct occurrences of the array
  and point at a position of the transaction that is not in front of position \<open>len\<close>.
\<close>

definition frame_ok :: "nat \<Rightarrow> PATEXT list \<Rightarrow> nat \<Rightarrow> nat PATOCC list \<Rightarrow> bool" where
  "frame_ok k exts len os =
     (wf_occs (\<lambda>x. x) k os \<and> ips_sized os \<and> length exts = k
      \<and> (\<forall>t\<in>{0..<k}. distinct (map occ (oxs (exts ! t)))
                \<and> (\<forall>x\<in>set (oxs (exts ! t)).
                      occ x < length os \<and> len \<le> item x \<and> item x < length (items (os ! occ x)))))"

text \<open>
  The store \<open>st'\<close> has the count of unanchored occurrence extensions and the shape of
  the occurrences of \<open>st\<close>.
\<close>

definition kept :: "nat store \<Rightarrow> nat store \<Rightarrow> bool" where
  "kept st st' = (unanchored st' = unanchored st \<and> same_shape (occs st) (occs st'))"

subsection \<open>Two iterations of the loops\<close>








section \<open>Properties\<close>

subsection \<open>The closedness test\<close>

lemma clear_frqs_length [simp]: "length (clear_frqs f b) = length f"
  by (induction b arbitrary: f) auto

lemma clear_frqs_nth:
  "j < length f \<Longrightarrow> clear_frqs f b ! j = (if j \<in> set b then 0 else f ! j)"
  by (induction b arbitrary: f) (auto simp: nth_list_update)

lemma scan_gap_touched:
  "touched f b \<Longrightarrow> scan_gap key i g (f, b, k) = (f', b', k') \<Longrightarrow>
     touched f' b' \<and> length f' = length f"
proof (induction g arbitrary: f b k)
  case Nil
  then show ?case by simp
next
  case (Cons x g)
  let ?c = "f ! key x + 1"
  have "touched (f[key x := ?c]) (if ?c \<le> 1 then key x # b else b)"
    unfolding touched_def
  proof (intro allI impI)
    fix j assume j: "j < length (f[key x := ?c])" and nz: "f[key x := ?c] ! j \<noteq> 0"
    show "j \<in> set (if ?c \<le> 1 then key x # b else b)"
    proof (cases "j = key x")
      case True
      with Cons.prems(1) j show ?thesis by (auto simp: touched_def)
    next
      case False
      with Cons.prems(1) j nz show ?thesis by (auto simp: touched_def)
    qed
  qed
  from Cons.IH[OF this] Cons.prems(2) show ?case by (simp add: Let_def)
qed

lemma scan_occs_touched:
  "touched f b \<Longrightarrow> scan_occs key os n i xs (f, b, k) = (f', b', k') \<Longrightarrow>
     touched f' b' \<and> length f' = length f"
proof (induction xs arbitrary: f b k i)
  case Nil
  then show ?case by simp
next
  case (Cons x xs)
  obtain f1 b1 k1 where s: "scan_gap key i (gap (os ! occ x) n) (f, b, 0) = (f1, b1, k1)"
    by (metis prod_cases3)
  from scan_gap_touched[OF Cons.prems(1) s] have t: "touched f1 b1" and l: "length f1 = length f"
    by auto
  show ?case
  proof (cases "k1 \<le> 0")
    case True
    with Cons.prems(2) s t l show ?thesis by simp
  next
    case False
    with Cons.prems(2) s have "scan_occs key os n (i + 1) xs (f1, b1, k1) = (f', b', k')"
      by simp
    from Cons.IH[OF t this] l show ?thesis by simp
  qed
qed

lemma touched_clear: "touched f b \<Longrightarrow> clear_frqs f b = replicate (length f) 0"
  by (rule nth_equalityI) (auto simp: clear_frqs_nth touched_def)

lemma touched_zero: "touched (replicate m 0) []"
  by (simp add: touched_def)

lemma closed_gaps_zero:
  "snd (closed_gaps key os xs n (replicate m 0) k) = replicate m 0"
proof (induction n arbitrary: k)
  case 0
  then show ?case by simp
next
  case (Suc n)
  obtain f1 b1 k1 where s: "scan_occs key os n 0 xs (replicate m 0, [], k) = (f1, b1, k1)"
    by (metis prod_cases3)
  from scan_occs_touched[OF touched_zero s] have "clear_frqs f1 b1 = replicate m 0"
    by (simp add: touched_clear)
  with s Suc.IH show ?case by simp
qed

lemma scan_gap_spec:
  "distinct (map key g) \<Longrightarrow> \<forall>x\<in>set g. key x < length f \<Longrightarrow>
   scan_gap key i g (f, b, k) = (f', b', k') \<Longrightarrow>
     length f' = length f
     \<and> (\<forall>a<length f. f' ! a = f ! a + (if a \<in> key ` set g then 1 else 0))
     \<and> k' = k + length (filter (\<lambda>x. f ! key x + 1 > i) g)"
proof (induction g arbitrary: f b k)
  case Nil
  then show ?case by simp
next
  case (Cons x g)
  let ?f = "f[key x := f ! key x + 1]"
  let ?b = "if f ! key x + 1 \<le> 1 then key x # b else b"
  let ?k = "if f ! key x + 1 > i then k + 1 else k"
  have d: "distinct (map key g)" and nx: "key x \<notin> key ` set g"
    using Cons.prems(1) by auto
  have r: "\<forall>y\<in>set g. key y < length ?f" using Cons.prems(2) by simp
  have s: "scan_gap key i g (?f, ?b, ?k) = (f', b', k')"
    using Cons.prems(3) by (simp add: Let_def)
  from Cons.IH[OF d r s]
  have l: "length f' = length f"
    and v: "\<forall>a<length f. f' ! a = ?f ! a + (if a \<in> key ` set g then 1 else 0)"
    and k: "k' = ?k + length (filter (\<lambda>y. ?f ! key y + 1 > i) g)"
    by auto
  have same: "filter (\<lambda>y. ?f ! key y + 1 > i) g = filter (\<lambda>y. f ! key y + 1 > i) g"
  proof (rule filter_cong[OF refl])
    fix y assume "y \<in> set g"
    with nx have "key y \<noteq> key x" by (metis imageI)
    then show "(?f ! key y + 1 > i) = (f ! key y + 1 > i)" by simp
  qed
  have "\<forall>a<length f. f' ! a = f ! a + (if a \<in> key ` set (x # g) then 1 else 0)"
  proof (intro allI impI)
    fix a assume a: "a < length f"
    show "f' ! a = f ! a + (if a \<in> key ` set (x # g) then 1 else 0)"
    proof (cases "a = key x")
      case True
      with v a nx show ?thesis by simp
    next
      case False
      with v a show ?thesis by simp
    qed
  qed
  moreover have "k' = k + length (filter (\<lambda>y. f ! key y + 1 > i) (x # g))"
    using k same by simp
  ultimately show ?case using l by blast
qed

lemma counted_all:
  "counted f ps \<Longrightarrow> a < length f \<Longrightarrow> (f ! a + 1 > length ps) = (\<forall>g\<in>set ps. a \<in> set g)"
proof -
  assume c: "counted f ps" and a: "a < length f"
  have "f ! a = length (filter (\<lambda>g. a \<in> set g) ps)" using c a by (simp add: counted_def)
  moreover have "(length (filter (\<lambda>g. a \<in> set g) ps) = length ps) = (\<forall>g\<in>set ps. a \<in> set g)"
    by (metis filter_id_conv length_filter_less less_irrefl)
  moreover have "length (filter (\<lambda>g. a \<in> set g) ps) \<le> length ps" by simp
  ultimately show ?thesis by linarith
qed

lemma scan_occs_spec:
  assumes "counted f ps" and "i = length ps"
    and "\<forall>x\<in>set xs. distinct (gap_keys key os n x) \<and> (\<forall>a\<in>set (gap_keys key os n x). a < length f)"
    and "scan_occs key os n i xs (f, b, k) = (f', b', k')"
  shows "(k' > 0) = (if xs = [] then k > 0
                     else \<exists>a. (\<forall>g\<in>set ps. a \<in> set g) \<and> (\<forall>x\<in>set xs. a \<in> set (gap_keys key os n x)))"
  using assms
proof (induction xs arbitrary: f b k ps i)
  case Nil
  then show ?case by simp
next
  case (Cons x xs)
  let ?g = "gap (os ! occ x) n"
  obtain f1 b1 k1 where s: "scan_gap key i ?g (f, b, 0) = (f1, b1, k1)"
    by (metis prod_cases3)
  have d: "distinct (map key ?g)" and r: "\<forall>y\<in>set ?g. key y < length f"
    using Cons.prems(3) by (auto simp: gap_keys_def)
  from scan_gap_spec[OF d r s]
  have l: "length f1 = length f"
    and v: "\<forall>a<length f. f1 ! a = f ! a + (if a \<in> key ` set ?g then 1 else 0)"
    and k1: "k1 = length (filter (\<lambda>y. f ! key y + 1 > i) ?g)"
    by auto
  have "(k1 > 0) = (\<exists>y\<in>set ?g. f ! key y + 1 > length ps)"
    using k1 Cons.prems(2) by (auto simp: filter_empty_conv)
  also have "\<dots> = (\<exists>y\<in>set ?g. \<forall>g\<in>set ps. key y \<in> set g)"
    using counted_all[OF Cons.prems(1)] r by (intro bex_cong refl) auto
  also have "\<dots> = (\<exists>a. (\<forall>g\<in>set ps. a \<in> set g) \<and> a \<in> set (gap_keys key os n x))"
    by (auto simp: gap_keys_def)
  finally have k1_iff:
    "(k1 > 0) = (\<exists>a. (\<forall>g\<in>set ps. a \<in> set g) \<and> a \<in> set (gap_keys key os n x))" .
  show ?case
  proof (cases "k1 \<le> 0")
    case True
    with Cons.prems(4) s have "k' = k1" by simp
    with True k1_iff show ?thesis by auto
  next
    case False
    with Cons.prems(4) s have rec: "scan_occs key os n (i + 1) xs (f1, b1, k1) = (f', b', k')"
      by simp
    have c1: "counted f1 (ps @ [gap_keys key os n x])"
      using Cons.prems(1) v l by (auto simp: counted_def gap_keys_def)
    have i1: "i + 1 = length (ps @ [gap_keys key os n x])" using Cons.prems(2) by simp
    have w1: "\<forall>x\<in>set xs. distinct (gap_keys key os n x) \<and> (\<forall>a\<in>set (gap_keys key os n x). a < length f1)"
      using Cons.prems(3) l by simp
    from Cons.IH[OF c1 i1 w1 rec] k1_iff False show ?thesis
      by (cases "xs = []") auto
  qed
qed

lemma counted_zero: "counted (replicate m 0) []"
  by (simp add: counted_def)

lemma closed_gaps_spec:
  assumes "xs \<noteq> []"
    and "\<forall>g<n. \<forall>x\<in>set xs. distinct (gap_keys key os g x) \<and> (\<forall>a\<in>set (gap_keys key os g x). a < m)"
  shows "fst (closed_gaps key os xs n (replicate m 0) k) =
           (if \<exists>g<n. \<exists>a. \<forall>x\<in>set xs. a \<in> set (gap_keys key os g x) then 0 else - 1)"
  using assms(2)
proof (induction n arbitrary: k)
  case 0
  then show ?case by simp
next
  case (Suc n)
  obtain f1 b1 k1 where s: "scan_occs key os n 0 xs (replicate m 0, [], k) = (f1, b1, k1)"
    by (metis prod_cases3)
  have w: "\<forall>x\<in>set xs. distinct (gap_keys key os n x) \<and> (\<forall>a\<in>set (gap_keys key os n x). a < length (replicate m (0::nat)))"
    using Suc.prems by (auto simp: less_Suc_eq)
  from scan_occs_spec[OF counted_zero _ w s] assms(1)
  have k1: "(k1 > 0) = (\<exists>a. \<forall>x\<in>set xs. a \<in> set (gap_keys key os n x))" by simp
  from scan_occs_touched[OF touched_zero s] have z: "clear_frqs f1 b1 = replicate m 0"
    by (simp add: touched_clear)
  have ih: "fst (closed_gaps key os xs n (replicate m 0) k1) =
           (if \<exists>g<n. \<exists>a. \<forall>x\<in>set xs. a \<in> set (gap_keys key os g x) then 0 else - 1)"
    using Suc.IH Suc.prems by (auto simp: less_Suc_eq)
  show ?case
  proof (cases "k1 > 0")
    case True
    with s k1 show ?thesis by auto
  next
    case False
    with k1 have "(\<exists>g<Suc n. \<exists>a. \<forall>x\<in>set xs. a \<in> set (gap_keys key os g x)) =
                  (\<exists>g<n. \<exists>a. \<forall>x\<in>set xs. a \<in> set (gap_keys key os g x))"
      by (auto simp: less_Suc_eq)
    with False s z ih show ?thesis by simp
  qed
qed

lemma anchor_length [simp]: "length (anchor xs m os) = length os"
  by (induction xs arbitrary: os) auto

lemma anchor_step_items:
  "j < length os \<Longrightarrow> items (os[i := (os ! i)\<lparr>ips := v\<rparr>] ! j) = items (os ! j)"
  by (cases "i = j") simp_all

lemma anchor_step_wgt:
  "j < length os \<Longrightarrow> wgt (os[i := (os ! i)\<lparr>ips := v\<rparr>] ! j) = wgt (os ! j)"
  by (cases "i = j") simp_all

lemma anchor_items: "j < length os \<Longrightarrow> items (anchor xs m os ! j) = items (os ! j)"
  by (induction xs arbitrary: os) (simp_all add: anchor_step_items)

lemma anchor_wgt: "j < length os \<Longrightarrow> wgt (anchor xs m os ! j) = wgt (os ! j)"
  by (induction xs arbitrary: os) (simp_all add: anchor_step_wgt)

lemma closed_frqs:
  "frqs (snd (closed_ext ext n st)) =
     snd (closed_gaps (\<lambda>x. x) (anchor (oxs ext) (n - 1) (occs st)) (oxs ext) n (frqs st) 0)"
  by (simp add: closed_ext_def Let_def split_beta)

lemma closed_fst:
  "fst (closed_ext ext n st) =
     fst (closed_gaps (\<lambda>x. x) (anchor (oxs ext) (n - 1) (occs st)) (oxs ext) n (frqs st) 0)"
  by (simp add: closed_ext_def Let_def split_beta)

lemma closed_occs:
  "occs (snd (closed_ext ext n st)) = anchor (oxs ext) (n - 1) (occs st)"
  by (simp add: closed_ext_def Let_def split_beta)

lemma closed_iw_frqs:
  "frqs (snd (closed_iw ext n sw)) = snd (closed_gaps w_item (occs sw) (oxs ext) n (frqs sw) 0)"
  by (simp add: closed_iw_def split_beta)

lemma closed_iw_fst:
  "fst (closed_iw ext n sw) = fst (closed_gaps w_item (occs sw) (oxs ext) n (frqs sw) 0)"
  by (simp add: closed_iw_def split_beta)

lemma gap_keys_wf:
  assumes "wf_occ key m (os ! occ x)"
  shows "distinct (gap_keys key os g x) \<and> (\<forall>a\<in>set (gap_keys key os g x). a < m)"
proof -
  let ?l = "items (os ! occ x)"
  obtain s z where g: "gap (os ! occ x) g = drop s (take z ?l)"
    by (simp add: gap_def Let_def)
  have "map key (drop s (take z ?l)) = drop s (take z (map key ?l))"
    by (simp add: drop_map take_map)
  then have "distinct (gap_keys key os g x)"
    using assms g by (simp add: gap_keys_def wf_occ_def distinct_drop distinct_take)
  moreover have "set (drop s (take z ?l)) \<subseteq> set ?l"
    by (meson set_drop_subset set_take_subset subset_trans)
  then have "\<forall>a\<in>set (gap_keys key os g x). a < m"
    using assms g by (auto simp: gap_keys_def wf_occ_def)
  ultimately show ?thesis by simp
qed


lemma set_drop_take:
  "set (drop s (take z ts)) = {ts ! q |q. s \<le> q \<and> q < z \<and> q < length ts}"
proof (intro set_eqI iffI)
  fix x assume "x \<in> set (drop s (take z ts))"
  then obtain i where i: "i < length (drop s (take z ts))" and x: "drop s (take z ts) ! i = x"
    by (auto simp: in_set_conv_nth)
  from i have b: "s + i < z" "s + i < length ts" by simp_all
  then have "x = ts ! (s + i)" using x by simp
  with b show "x \<in> {ts ! q |q. s \<le> q \<and> q < z \<and> q < length ts}" by auto
next
  fix x assume "x \<in> {ts ! q |q. s \<le> q \<and> q < z \<and> q < length ts}"
  then obtain q where q: "s \<le> q" "q < z" "q < length ts" and x: "x = ts ! q" by auto
  then have "q - s < length (drop s (take z ts))" by simp
  moreover have "drop s (take z ts) ! (q - s) = ts ! q" using q by simp
  ultimately show "x \<in> set (drop s (take z ts))" using x by (metis nth_mem)
qed

lemma key_drop_take:
  "a \<in> key ` set (drop s (take z ts)) \<longleftrightarrow>
     (\<exists>q. s \<le> q \<and> q < z \<and> q < length ts \<and> key (ts ! q) = a)"
  unfolding set_drop_take by blast

lemma gap_in_gap:
  "a \<in> key ` set (gap po g) \<longleftrightarrow> in_gap key (items po) (ips po) g a"
proof (cases "0 < g")
  case True
  have "in_gap key (items po) (ips po) g a \<longleftrightarrow>
        (\<exists>q. the (ips po ! (g - 1)) + 1 \<le> q \<and> q < the (ips po ! g) \<and> q < length (items po)
              \<and> key (items po ! q) = a)"
    using True unfolding in_gap_def by (auto simp: Suc_le_eq)
  then show ?thesis using True by (simp add: gap_def Let_def key_drop_take)
next
  case False
  have "in_gap key (items po) (ips po) g a \<longleftrightarrow>
        (\<exists>q. 0 \<le> q \<and> q < the (ips po ! g) \<and> q < length (items po)
              \<and> key (items po ! q) = a)"
    using False unfolding in_gap_def by auto
  then show ?thesis
    using False key_drop_take[of a key 0 "the (ips po ! g)" "items po"]
    by (simp add: gap_def Let_def)
qed

lemma anchor_other: "j \<notin> occ ` set xs \<Longrightarrow> anchor xs m os ! j = os ! j"
  by (induction xs arbitrary: os) auto

lemma anchor_ips:
  "distinct (map occ xs) \<Longrightarrow> x \<in> set xs \<Longrightarrow> occ x < length os \<Longrightarrow>
     ips (anchor xs m os ! occ x) = (ips (os ! occ x))[m := Some (item x)]"
proof (induction xs arbitrary: os)
  case Nil
  then show ?case by simp
next
  case (Cons y xs)
  let ?os = "os[occ y := (os ! occ y)\<lparr>ips := (ips (os ! occ y))[m := Some (item y)]\<rparr>]"
  have ny: "occ y \<notin> occ ` set xs" using Cons.prems(1) by auto
  show ?case
  proof (cases "x = y")
    case True
    have "anchor xs m ?os ! occ y = ?os ! occ y" using ny by (rule anchor_other)
    with True Cons.prems(3) show ?thesis by simp
  next
    case False
    with Cons.prems have x: "x \<in> set xs" by simp
    then have "occ x \<in> occ ` set xs" by (rule imageI)
    with ny have ne: "occ x \<noteq> occ y" by metis
    have "ips (anchor xs m ?os ! occ x) = (ips (?os ! occ x))[m := Some (item x)]"
      using Cons.prems x by (intro Cons.IH) auto
    with ne show ?thesis by simp
  qed
qed

lemma closed_iw_positional:
  assumes "oxs ext \<noteq> []" and "frqs st = replicate m 0"
    and "\<forall>x\<in>set (oxs ext). wf_occ w_item m (occs st ! occ x)"
  shows "fst (closed_iw ext n st) =
           (if \<exists>g<n. \<exists>a. \<forall>x\<in>set (oxs ext).
                  in_gap w_item (items (occs st ! occ x)) (ips (occs st ! occ x)) g a
            then 0 else - 1)"
proof -
  have w: "\<forall>g<n. \<forall>x\<in>set (oxs ext). distinct (gap_keys w_item (occs st) g x)
             \<and> (\<forall>a\<in>set (gap_keys w_item (occs st) g x). a < m)"
    using assms(3) gap_keys_wf by blast
  have "fst (closed_iw ext n st) = fst (closed_gaps w_item (occs st) (oxs ext) n (replicate m 0) 0)"
    using assms(2) by (simp add: closed_iw_fst)
  also have "\<dots> = (if \<exists>g<n. \<exists>a. \<forall>x\<in>set (oxs ext). a \<in> set (gap_keys w_item (occs st) g x)
                    then 0 else - 1)"
    by (rule closed_gaps_spec[OF assms(1) w])
  finally show ?thesis by (simp add: gap_keys_def gap_in_gap)
qed

lemma closed_ext_positional:
  assumes "oxs ext \<noteq> []" and "frqs st = replicate m 0" and d: "distinct (map occ (oxs ext))"
    and o: "\<forall>x\<in>set (oxs ext). occ x < length (occs st) \<and> wf_occ (\<lambda>x. x) m (occs st ! occ x)"
  shows "fst (closed_ext ext n st) =
           (if \<exists>g<n. \<exists>a. \<forall>x\<in>set (oxs ext).
                  in_gap (\<lambda>x. x) (items (occs st ! occ x))
                    ((ips (occs st ! occ x))[n - 1 := Some (item x)]) g a
            then 0 else - 1)"
proof -
  let ?os = "anchor (oxs ext) (n - 1) (occs st)"
  have w: "\<forall>g<n. \<forall>x\<in>set (oxs ext). distinct (gap_keys (\<lambda>x. x) ?os g x)
             \<and> (\<forall>a\<in>set (gap_keys (\<lambda>x. x) ?os g x). a < m)"
  proof (intro allI impI ballI)
    fix g x assume "x \<in> set (oxs ext)"
    with o have "wf_occ (\<lambda>x. x) m (?os ! occ x)"
      by (simp add: wf_occ_def anchor_items)
    then show "distinct (gap_keys (\<lambda>x. x) ?os g x) \<and> (\<forall>a\<in>set (gap_keys (\<lambda>x. x) ?os g x). a < m)"
      by (rule gap_keys_wf)
  qed
  have g: "a \<in> set (gap_keys (\<lambda>x. x) ?os g x) \<longleftrightarrow>
           in_gap (\<lambda>x. x) (items (occs st ! occ x)) ((ips (occs st ! occ x))[n - 1 := Some (item x)]) g a"
    if "x \<in> set (oxs ext)" for a g x
  proof -
    have "occ x < length (occs st)" using o that by simp
    then have "items (?os ! occ x) = items (occs st ! occ x)"
      and "ips (?os ! occ x) = (ips (occs st ! occ x))[n - 1 := Some (item x)]"
      using anchor_ips[OF d that] by (simp_all add: anchor_items)
    then show ?thesis using gap_in_gap[of a "\<lambda>x. x" "?os ! occ x" g] by (simp add: gap_keys_def)
  qed
  have "fst (closed_ext ext n st) = fst (closed_gaps (\<lambda>x. x) ?os (oxs ext) n (replicate m 0) 0)"
    using assms(2) by (simp add: closed_fst)
  also have "\<dots> = (if \<exists>g<n. \<exists>a. \<forall>x\<in>set (oxs ext). a \<in> set (gap_keys (\<lambda>x. x) ?os g x)
                    then 0 else - 1)"
    by (rule closed_gaps_spec[OF assms(1) w])
  finally show ?thesis using g by simp
qed

text \<open>
  C8. A call of \<^verbatim>\<open>closed\<close> or \<^verbatim>\<open>closed_iw\<close> that finds the counter array
  \<^verbatim>\<open>rd->frqs\<close> all zero leaves it all zero, whatever it returns; clearing along
  the touch list sets to zero exactly the counters whose items are on the list.
\<close>

theorem closed_leaves_frqs_zero:
  assumes "frqs st = replicate m 0" and "frqs sw = replicate mw 0"
  shows "frqs (snd (closed_ext ext n st)) = replicate m 0
       \<and> frqs (snd (closed_iw extw nw sw)) = replicate mw 0
       \<and> (\<forall>f b j. j < length f \<longrightarrow> clear_frqs f b ! j = (if j \<in> set b then 0 else f ! j))"
proof -
  have "frqs (snd (closed_ext ext n st)) = replicate m 0"
    using assms(1) by (simp add: closed_frqs closed_gaps_zero)
  moreover have "frqs (snd (closed_iw extw nw sw)) = replicate mw 0"
    using assms(2) by (simp add: closed_iw_frqs closed_gaps_zero)
  ultimately show ?thesis by (simp add: clear_frqs_nth)
qed


theorem closed_leaves_frqs_zero_witness:
  "frqs st_abc = replicate 3 0 \<and> frqs st_w_b = replicate 2 0
   \<and> frqs (snd (closed_ext (exts_abc ! 1) 1 st_abc)) = replicate 3 0
   \<and> frqs (snd (closed_iw (exts_w ! 1) 1 st_w_b)) = replicate 2 0"
proof -
  have h1: "frqs st_abc = replicate 3 0" by code_simp
  have h2: "frqs st_w_b = replicate 2 0" by code_simp
  from closed_leaves_frqs_zero[OF h1 h2, where ext = "exts_abc ! 1" and n = 1
      and extw = "exts_w ! 1" and nw = 1] h1 h2
  show ?thesis by simp
qed


text \<open>
  C5. For an extension with at least one occurrence and a pattern length \<open>n > 0\<close>, on
  occurrences that satisfy the invariant of the data model and with the counters zero on
  entry, \<^verbatim>\<open>closed\<close> and \<^verbatim>\<open>closed_iw\<close> return \<open>0\<close> if there are a gap index
  \<open>g < n\<close> and an item that stands, in the transaction of every occurrence, in front
  of the anchor \<^verbatim>\<open>ips[g]\<close> and, for \<open>g > 0\<close>, behind the anchor \<^verbatim>\<open>ips[g-1]\<close>;
  they return \<open>-1\<close> otherwise. For \<^verbatim>\<open>closed\<close> the anchor \<^verbatim>\<open>ips[n-1]\<close> of an
  occurrence is the extension item \<^verbatim>\<open>x->item\<close>, which it writes first (an occurrence
  has one extension per item); \<^verbatim>\<open>closed_iw\<close> finds all anchors written.
\<close>

theorem closed_iff_common_gap_item:
  assumes "oxs ext \<noteq> []" and "0 < n"
    and "frqs st = replicate m 0"
    and "distinct (map occ (oxs ext))"
    and "\<forall>x\<in>set (oxs ext). occ x < length (occs st) \<and> wf_occ (\<lambda>x. x) m (occs st ! occ x)"
    and "oxs extw \<noteq> []" and "0 < nw"
    and "frqs sw = replicate mw 0"
    and "\<forall>x\<in>set (oxs extw). wf_occ w_item mw (occs sw ! occ x)"
  shows "fst (closed_ext ext n st) =
           (if \<exists>g<n. \<exists>a. \<forall>x\<in>set (oxs ext).
                  in_gap (\<lambda>x. x) (items (occs st ! occ x))
                    ((ips (occs st ! occ x))[n - 1 := Some (item x)]) g a
            then 0 else - 1)
       \<and> fst (closed_iw extw nw sw) =
           (if \<exists>g<nw. \<exists>a. \<forall>x\<in>set (oxs extw).
                  in_gap w_item (items (occs sw ! occ x)) (ips (occs sw ! occ x)) g a
            then 0 else - 1)"
  using closed_ext_positional[OF assms(1,3,4,5), of n] closed_iw_positional[OF assms(6,8,9), of nw]
  by simp

theorem closed_iff_common_gap_item_witness:
  "fst (closed_ext ext_acb 2 st_acb) = 0 \<and> fst (closed_iw ext_wacb 2 st_wacb) = 0
   \<and> oxs ext_acb = [\<lparr>item = 2, occ = 0\<rparr>, \<lparr>item = 3, occ = 1\<rparr>]
   \<and> map (\<lambda>x. ips (occs st_acb ! occ x)) (oxs ext_acb) = [[Some 0, None, None], [Some 1, None, None, None]]
   \<and> \<not> (\<exists>a. \<forall>x\<in>set (oxs ext_acb).
             in_gap (\<lambda>x. x) (items (occs st_acb ! occ x))
               ((ips (occs st_acb ! occ x))[2 - 1 := Some (item x)]) 0 a)"
proof -
  have h1: "oxs ext_acb \<noteq> []" by code_simp
  have h2: "(0::nat) < 2" by simp
  have h3: "frqs st_acb = replicate 4 0" by code_simp
  have h4: "distinct (map occ (oxs ext_acb))" by code_simp
  have h5: "\<forall>x\<in>set (oxs ext_acb).
              occ x < length (occs st_acb) \<and> wf_occ (\<lambda>x. x) 4 (occs st_acb ! occ x)"
    by code_simp
  have h6: "oxs ext_wacb \<noteq> []" by code_simp
  have h8: "frqs st_wacb = replicate 4 0" by code_simp
  have h9: "\<forall>x\<in>set (oxs ext_wacb). wf_occ w_item 4 (occs st_wacb ! occ x)"
    by code_simp
  have e1: "\<forall>x\<in>set (oxs ext_acb).
              in_gap (\<lambda>x. x) (items (occs st_acb ! occ x))
                ((ips (occs st_acb ! occ x))[2 - 1 := Some (item x)]) 1 2"
    by code_simp
  have e2: "\<forall>x\<in>set (oxs ext_wacb).
              in_gap w_item (items (occs st_wacb ! occ x)) (ips (occs st_wacb ! occ x)) 1 2"
    by code_simp
  have o: "oxs ext_acb = [\<lparr>item = 2, occ = 0\<rparr>, \<lparr>item = 3, occ = 1\<rparr>]" by code_simp
  have p: "map (\<lambda>x. ips (occs st_acb ! occ x)) (oxs ext_acb)
             = [[Some 0, None, None], [Some 1, None, None, None]]" by code_simp
  have g0: "\<And>a. \<not> in_gap (\<lambda>x. x) (items (occs st_acb ! 0))
               ((ips (occs st_acb ! 0))[2 - 1 := Some 2]) 0 a"
  proof -
    fix a
    have i: "items (occs st_acb ! 0) = [0, 2, 1]" by code_simp
    have q: "ips (occs st_acb ! 0) = [Some 0, None, None]" by code_simp
    show "\<not> in_gap (\<lambda>x. x) (items (occs st_acb ! 0)) ((ips (occs st_acb ! 0))[2 - 1 := Some 2]) 0 a"
      by (simp add: i q in_gap_def)
  qed
  have n0: "\<not> (\<exists>a. \<forall>x\<in>set (oxs ext_acb).
             in_gap (\<lambda>x. x) (items (occs st_acb ! occ x))
               ((ips (occs st_acb ! occ x))[2 - 1 := Some (item x)]) 0 a)"
    using g0 by (simp add: o)
  from e1 have x1: "\<exists>g<2::nat. \<exists>a. \<forall>x\<in>set (oxs ext_acb).
              in_gap (\<lambda>x. x) (items (occs st_acb ! occ x))
                ((ips (occs st_acb ! occ x))[2 - 1 := Some (item x)]) g a"
    by (intro exI[of _ "1::nat"] conjI exI[of _ "2::nat"]) simp_all
  from e2 have x2: "\<exists>g<2::nat. \<exists>a. \<forall>x\<in>set (oxs ext_wacb).
              in_gap w_item (items (occs st_wacb ! occ x)) (ips (occs st_wacb ! occ x)) g a"
    by (intro exI[of _ "1::nat"] conjI exI[of _ "2::nat"]) simp_all
  from closed_iff_common_gap_item[OF h1 h2 h3 h4 h5 h6 h2 h8 h9] x1 x2 o p n0 show ?thesis
    by simp
qed

subsection \<open>Unfolding and induction for the recursion\<close>

lemma rec_loop_unfold:
  "rec_loop rd exts len c i mx s st =
     (if \<not> i < cnt rd then (s, mx, st)
      else if supp (exts ! i) < smin rd then rec_loop rd exts len c (i + 1) mx s st
      else if fst (closed_filter rd (exts ! i) len st)
      then rec_loop rd exts len c (i + 1) (mx_next mx (exts ! i)) s
             (snd (closed_filter rd (exts ! i) len st))
      else
        (let ch = child rd (exts ! i) len c s
                    (st_added (snd (closed_filter rd (exts ! i) len st)) i (exts ! i) len);
             s1 = fst (snd ch); st3 = snd (snd ch)
         in if fst ch then (s1, mx_next mx (exts ! i), st3)
            else if \<not> closed_mode rd \<or> s1 < supp (exts ! i) then
              (if fst (reported st3 (isr_report (report st3))) < 0
               then (- 1, mx_next mx (exts ! i), snd (reported st3 (isr_report (report st3))))
               else rec_loop rd exts len c (i + 1) (mx_next mx (exts ! i)) s1
                      (st_popped (snd (reported st3 (isr_report (report st3))))))
            else rec_loop rd exts len c (i + 1) (mx_next mx (exts ! i)) s1 (st_popped st3)))"
  by (subst rec_loop.simps)
     (simp add: Let_def split_beta child_def st_added_def st_popped_def mx_next_def)


lemma recurse_unfold:
  "recurse rd exts z len st =
     (if len + 1 \<le> zmax rd then
        (if \<not> fst (malloc (entered st len)) then (- 1, snd (malloc (entered st len)))
         else (let l = rec_loop rd exts (len + 1) True 0 0 0 (snd (malloc (entered st len)))
               in (if fst l < 0 then fst l else fst (snd l), snd (snd l))))
      else (let l = rec_loop rd exts (len + 1) False 0 0 0 (entered st len)
            in (if fst l < 0 then fst l else fst (snd l), snd (snd l))))"
  by (subst recurse.simps) (simp add: Let_def split_beta)

lemma recurse_induct [case_names recurse rec_loop]:
  assumes R: "\<And>rd exts z len st.
      (len + 1 \<le> zmax rd \<Longrightarrow> fst (malloc (entered st len)) \<Longrightarrow>
         Q rd exts (len + 1) True 0 0 0 (snd (malloc (entered st len)))) \<Longrightarrow>
      (\<not> len + 1 \<le> zmax rd \<Longrightarrow> Q rd exts (len + 1) False 0 0 0 (entered st len)) \<Longrightarrow>
      P rd exts z len st"
    and L: "\<And>rd exts len c i mx s st e flt st2 prj ch s1 st3 rp.
      e = exts ! i \<Longrightarrow> flt = closed_filter rd e len st \<Longrightarrow> st2 = st_added (snd flt) i e len \<Longrightarrow>
      prj = project (\<lambda>x. x) (occs st2) (oxs e) (clear_cond rd, 0) \<Longrightarrow>
      ch = child rd e len c s st2 \<Longrightarrow> s1 = fst (snd ch) \<Longrightarrow> st3 = snd (snd ch) \<Longrightarrow>
      rp = reported st3 (isr_report (report st3)) \<Longrightarrow>
      (i < cnt rd \<Longrightarrow> supp e < smin rd \<Longrightarrow> Q rd exts len c (i + 1) mx s st) \<Longrightarrow>
      (i < cnt rd \<Longrightarrow> \<not> supp e < smin rd \<Longrightarrow> fst flt \<Longrightarrow>
         Q rd exts len c (i + 1) (mx_next mx e) s (snd flt)) \<Longrightarrow>
      (i < cnt rd \<Longrightarrow> \<not> supp e < smin rd \<Longrightarrow> \<not> fst flt \<Longrightarrow> c \<Longrightarrow> 0 < snd prj \<Longrightarrow>
         P rd (fst prj) (snd prj) len st2) \<Longrightarrow>
      (i < cnt rd \<Longrightarrow> \<not> supp e < smin rd \<Longrightarrow> \<not> fst flt \<Longrightarrow> \<not> fst ch \<Longrightarrow>
         \<not> closed_mode rd \<or> s1 < supp e \<Longrightarrow> \<not> fst rp < 0 \<Longrightarrow>
         Q rd exts len c (i + 1) (mx_next mx e) s1 (st_popped (snd rp))) \<Longrightarrow>
      (i < cnt rd \<Longrightarrow> \<not> supp e < smin rd \<Longrightarrow> \<not> fst flt \<Longrightarrow> \<not> fst ch \<Longrightarrow>
         \<not> (\<not> closed_mode rd \<or> s1 < supp e) \<Longrightarrow>
         Q rd exts len c (i + 1) (mx_next mx e) s1 (st_popped st3)) \<Longrightarrow>
      Q rd exts len c i mx s st"
  shows "P rd exts z len st" and "Q rd exts len c i mx s st"
proof (induction rd exts z len st and rd exts len c i mx s st rule: recurse_rec_loop.induct)
  case (1 rd exts z len st)
  show ?case
  proof (rule R)
    assume "len + 1 \<le> zmax rd" and "fst (malloc (entered st len))"
    then show "Q rd exts (len + 1) True 0 0 0 (snd (malloc (entered st len)))"
      using "1.IH"(1)[OF _ prod.collapse] by simp
  next
    assume "\<not> len + 1 \<le> zmax rd"
    then show "Q rd exts (len + 1) False 0 0 0 (entered st len)" by (rule "1.IH"(2))
  qed
next
  case (2 rd exts len c i mx s st)
  let ?e = "exts ! i"
  let ?flt = "closed_filter rd ?e len st"
  let ?st2 = "st_added (snd ?flt) i ?e len"
  let ?prj = "project (\<lambda>x. x) (occs ?st2) (oxs ?e) (clear_cond rd, 0)"
  let ?ch = "child rd ?e len c s ?st2"
  let ?s1 = "fst (snd ?ch)"
  let ?st3 = "snd (snd ?ch)"
  let ?rp = "reported ?st3 (isr_report (report ?st3))"
  have st2x: "?st2 = (snd ?flt)\<lparr>report := isr_add (report (snd ?flt)) i (supp ?e),
                        unanchored := unanchored (snd ?flt)
                          + missing_anchors (occs (snd ?flt)) (oxs ?e) (len - 1)\<rparr>"
    by (simp add: st_added_def)
  have chx: "?ch = (if \<not> c then (False, 0, ?st2)
           else case project (\<lambda>x. x) (occs ?st2) (oxs ?e) (clear_cond rd, 0) of
                (cond, z1) \<Rightarrow>
                  if 0 < z1
                  then case recurse rd cond z1 len ?st2 of
                       (s', st') \<Rightarrow> (s' < 0, s', st')
                  else (False, s, ?st2))"
    by (simp add: child_def)
  show ?case
  proof (rule L[OF refl refl refl refl refl refl refl refl])
    assume "i < cnt rd" "supp ?e < smin rd"
    then show "Q rd exts len c (i + 1) mx s st"
      using "2.IH"(1) by simp
  next
    assume "i < cnt rd" "\<not> supp ?e < smin rd" "fst ?flt"
    then show "Q rd exts len c (i + 1) (mx_next mx ?e) s (snd ?flt)"
      using "2.IH"(2)[OF _ _ refl refl refl prod.collapse]
      by (simp add: mx_next_def)
  next
    assume "i < cnt rd" "\<not> supp ?e < smin rd" "\<not> fst ?flt" "c" "0 < snd ?prj"
    then show "P rd (fst ?prj) (snd ?prj) len ?st2"
      using "2.IH"(3)[OF _ _ refl refl refl prod.collapse _ st2x _ prod.collapse]
      by simp
  next
    assume a: "i < cnt rd" "\<not> supp ?e < smin rd" "\<not> fst ?flt" "\<not> fst ?ch"
      "\<not> closed_mode rd \<or> ?s1 < supp ?e" "\<not> fst ?rp < 0"
    then have "Q rd exts len c (i + 1) (if mx < supp ?e then supp ?e else mx) ?s1
            ((snd ?rp)\<lparr>report := isr_remove (report (snd ?rp)) 1\<rparr>)"
      using "2.IH"(4)[OF _ _ refl refl refl prod.collapse _ st2x chx prod.collapse
          prod.collapse _ _ prod.collapse]
      by simp
    then show "Q rd exts len c (i + 1) (mx_next mx ?e) ?s1 (st_popped (snd ?rp))"
      by (simp add: mx_next_def st_popped_def)
  next
    assume a: "i < cnt rd" "\<not> supp ?e < smin rd" "\<not> fst ?flt" "\<not> fst ?ch"
      "\<not> (\<not> closed_mode rd \<or> ?s1 < supp ?e)"
    then have "Q rd exts len c (i + 1) (if mx < supp ?e then supp ?e else mx) ?s1
            (?st3\<lparr>report := isr_remove (report ?st3) 1\<rparr>)"
      using "2.IH"(5)[OF _ _ refl refl refl prod.collapse _ st2x chx prod.collapse
          prod.collapse]
      by simp
    then show "Q rd exts len c (i + 1) (mx_next mx ?e) ?s1 (st_popped ?st3)"
      by (simp add: mx_next_def st_popped_def)
  qed
qed

lemma child_none: "\<not> c \<Longrightarrow> child rd e len c s st = (False, 0, st)"
  by (simp add: child_def)

lemma child_empty:
  "c \<Longrightarrow> \<not> 0 < snd (project (\<lambda>x. x) (occs st) (oxs e) (clear_cond rd, 0)) \<Longrightarrow>
     child rd e len c s st = (False, s, st)"
  by (simp add: child_def split_beta)

lemma child_rec:
  "c \<Longrightarrow> prj = project (\<lambda>x. x) (occs st) (oxs e) (clear_cond rd, 0) \<Longrightarrow> 0 < snd prj \<Longrightarrow>
     child rd e len c s st =
       (fst (recurse rd (fst prj) (snd prj) len st) < 0,
        fst (recurse rd (fst prj) (snd prj) len st),
        snd (recurse rd (fst prj) (snd prj) len st))"
  by (simp add: child_def split_beta)


lemma rec_loop_done: "\<not> i < cnt rd \<Longrightarrow> rec_loop rd exts len c i mx s st = (s, mx, st)"
  by (subst rec_loop_unfold) simp

lemma rec_loop_infreq:
  "i < cnt rd \<Longrightarrow> supp (exts ! i) < smin rd \<Longrightarrow>
     rec_loop rd exts len c i mx s st = rec_loop rd exts len c (i + 1) mx s st"
  by (subst rec_loop_unfold) simp

lemma rec_loop_skip:
  "e = exts ! i \<Longrightarrow> flt = closed_filter rd e len st \<Longrightarrow>
   i < cnt rd \<Longrightarrow> \<not> supp e < smin rd \<Longrightarrow> fst flt \<Longrightarrow>
     rec_loop rd exts len c i mx s st = rec_loop rd exts len c (i + 1) (mx_next mx e) s (snd flt)"
  by (subst rec_loop_unfold) simp

lemma rec_loop_break:
  "e = exts ! i \<Longrightarrow> flt = closed_filter rd e len st \<Longrightarrow> st2 = st_added (snd flt) i e len \<Longrightarrow>
   ch = child rd e len c s st2 \<Longrightarrow>
   i < cnt rd \<Longrightarrow> \<not> supp e < smin rd \<Longrightarrow> \<not> fst flt \<Longrightarrow> fst ch \<Longrightarrow>
     rec_loop rd exts len c i mx s st = (fst (snd ch), mx_next mx e, snd (snd ch))"
  by (subst rec_loop_unfold) (simp add: Let_def)

lemma rec_loop_fail:
  "e = exts ! i \<Longrightarrow> flt = closed_filter rd e len st \<Longrightarrow> st2 = st_added (snd flt) i e len \<Longrightarrow>
   ch = child rd e len c s st2 \<Longrightarrow> s1 = fst (snd ch) \<Longrightarrow> st3 = snd (snd ch) \<Longrightarrow>
   rp = reported st3 (isr_report (report st3)) \<Longrightarrow>
   i < cnt rd \<Longrightarrow> \<not> supp e < smin rd \<Longrightarrow> \<not> fst flt \<Longrightarrow> \<not> fst ch \<Longrightarrow>
   \<not> closed_mode rd \<or> s1 < supp e \<Longrightarrow> fst rp < 0 \<Longrightarrow>
     rec_loop rd exts len c i mx s st = (- 1, mx_next mx e, snd rp)"
  by (subst rec_loop_unfold) (auto simp: Let_def)

lemma rec_loop_report:
  "e = exts ! i \<Longrightarrow> flt = closed_filter rd e len st \<Longrightarrow> st2 = st_added (snd flt) i e len \<Longrightarrow>
   ch = child rd e len c s st2 \<Longrightarrow> s1 = fst (snd ch) \<Longrightarrow> st3 = snd (snd ch) \<Longrightarrow>
   rp = reported st3 (isr_report (report st3)) \<Longrightarrow>
   i < cnt rd \<Longrightarrow> \<not> supp e < smin rd \<Longrightarrow> \<not> fst flt \<Longrightarrow> \<not> fst ch \<Longrightarrow>
   \<not> closed_mode rd \<or> s1 < supp e \<Longrightarrow> \<not> fst rp < 0 \<Longrightarrow>
     rec_loop rd exts len c i mx s st =
       rec_loop rd exts len c (i + 1) (mx_next mx e) s1 (st_popped (snd rp))"
  by (subst rec_loop_unfold) (auto simp: Let_def)

lemma rec_loop_quiet:
  "e = exts ! i \<Longrightarrow> flt = closed_filter rd e len st \<Longrightarrow> st2 = st_added (snd flt) i e len \<Longrightarrow>
   ch = child rd e len c s st2 \<Longrightarrow> s1 = fst (snd ch) \<Longrightarrow> st3 = snd (snd ch) \<Longrightarrow>
   i < cnt rd \<Longrightarrow> \<not> supp e < smin rd \<Longrightarrow> \<not> fst flt \<Longrightarrow> \<not> fst ch \<Longrightarrow>
   \<not> (\<not> closed_mode rd \<or> s1 < supp e) \<Longrightarrow>
     rec_loop rd exts len c i mx s st =
       rec_loop rd exts len c (i + 1) (mx_next mx e) s1 (st_popped st3)"
  by (subst rec_loop_unfold) (auto simp: Let_def)

lemma rec_iw_unfold:
  "rec_iw rd exts z len st =
     (if len + 1 \<le> zmax rd then
        (if \<not> fst (malloc (entered st len)) then (- 1, snd (malloc (entered st len)))
         else (let l = rec_iw_loop rd exts (len + 1) True 0 0 0 (snd (malloc (entered st len)))
               in (if fst l < 0 then fst l else fst (snd l), snd (snd l))))
      else (let l = rec_iw_loop rd exts (len + 1) False 0 0 0 (entered st len)
            in (if fst l < 0 then fst l else fst (snd l), snd (snd l))))"
  by (subst rec_iw.simps) (simp add: Let_def split_beta)

lemma rec_iw_loop_unfold:
  "rec_iw_loop rd exts len c i mx s st =
     (if \<not> i < cnt rd then (s, mx, st)
      else if supp (exts ! i) < smin rd then rec_iw_loop rd exts len c (i + 1) mx s st
      else
        (let e = exts ! i;
             mx1 = mx_next mx e;
             st0 = st_anchored st len i e;
             (skip, st1) = closed_filter_iw rd e len st0
         in if skip then rec_iw_loop rd exts len c (i + 1) mx1 s st1
            else
              (let (brk, s1, st3) = child_iw rd e len c s st1
               in if brk then (s1, mx1, st3)
                  else if closed_mode rd \<and> s1 \<ge> supp e
                  then rec_iw_loop rd exts len c (i + 1) mx1 s1 st3
                  else
                    (let st4 = st_weighed st3 e len
                     in case reported st4
                               (isr_isetx (report st4) (pat st4) len (wgts st4) (supp e)) of
                          (r, st5) \<Rightarrow>
                            if r < 0 then (- 1, mx1, st5)
                            else rec_iw_loop rd exts len c (i + 1) mx1 s1 st5))))"
  by (subst rec_iw_loop.simps)
     (simp only: child_iw_def st_anchored_def st_weighed_def mx_next_def)

lemma rec_iw_induct [case_names rec_iw rec_iw_loop]:
  assumes R: "\<And>rd exts z len st.
      (len + 1 \<le> zmax rd \<Longrightarrow> fst (malloc (entered st len)) \<Longrightarrow>
         Q rd exts (len + 1) True 0 0 0 (snd (malloc (entered st len)))) \<Longrightarrow>
      (\<not> len + 1 \<le> zmax rd \<Longrightarrow> Q rd exts (len + 1) False 0 0 0 (entered st len)) \<Longrightarrow>
      P rd exts z len st"
    and L: "\<And>rd exts len c i mx s st e st0 flt st1 prj ch s1 st3 st4 rp.
      e = exts ! i \<Longrightarrow> st0 = st_anchored st len i e \<Longrightarrow> flt = closed_filter_iw rd e len st0 \<Longrightarrow>
      st1 = snd flt \<Longrightarrow>
      prj = project w_item (occs st1) (oxs e) (clear_cond rd, 0) \<Longrightarrow>
      ch = child_iw rd e len c s st1 \<Longrightarrow> s1 = fst (snd ch) \<Longrightarrow> st3 = snd (snd ch) \<Longrightarrow>
      st4 = st_weighed st3 e len \<Longrightarrow>
      rp = reported st4 (isr_isetx (report st4) (pat st4) len (wgts st4) (supp e)) \<Longrightarrow>
      (i < cnt rd \<Longrightarrow> supp e < smin rd \<Longrightarrow> Q rd exts len c (i + 1) mx s st) \<Longrightarrow>
      (i < cnt rd \<Longrightarrow> \<not> supp e < smin rd \<Longrightarrow> fst flt \<Longrightarrow>
         Q rd exts len c (i + 1) (mx_next mx e) s st1) \<Longrightarrow>
      (i < cnt rd \<Longrightarrow> \<not> supp e < smin rd \<Longrightarrow> \<not> fst flt \<Longrightarrow> c \<Longrightarrow> 0 < snd prj \<Longrightarrow>
         P rd (fst prj) (snd prj) len st1) \<Longrightarrow>
      (i < cnt rd \<Longrightarrow> \<not> supp e < smin rd \<Longrightarrow> \<not> fst flt \<Longrightarrow> \<not> fst ch \<Longrightarrow>
         closed_mode rd \<and> s1 \<ge> supp e \<Longrightarrow>
         Q rd exts len c (i + 1) (mx_next mx e) s1 st3) \<Longrightarrow>
      (i < cnt rd \<Longrightarrow> \<not> supp e < smin rd \<Longrightarrow> \<not> fst flt \<Longrightarrow> \<not> fst ch \<Longrightarrow>
         \<not> (closed_mode rd \<and> s1 \<ge> supp e) \<Longrightarrow> \<not> fst rp < 0 \<Longrightarrow>
         Q rd exts len c (i + 1) (mx_next mx e) s1 (snd rp)) \<Longrightarrow>
      Q rd exts len c i mx s st"
  shows "P rd exts z len st" and "Q rd exts len c i mx s st"
proof (induction rd exts z len st and rd exts len c i mx s st rule: rec_iw_rec_iw_loop.induct)
  case (1 rd exts z len st)
  show ?case
  proof (rule R)
    assume "len + 1 \<le> zmax rd" and "fst (malloc (entered st len))"
    then show "Q rd exts (len + 1) True 0 0 0 (snd (malloc (entered st len)))"
      using "1.IH"(1)[OF _ prod.collapse] by simp
  next
    assume "\<not> len + 1 \<le> zmax rd"
    then show "Q rd exts (len + 1) False 0 0 0 (entered st len)" by (rule "1.IH"(2))
  qed
next
  case (2 rd exts len c i mx s st)
  let ?e = "exts ! i"
  let ?st0 = "st_anchored st len i ?e"
  let ?flt = "closed_filter_iw rd ?e len ?st0"
  let ?st1 = "snd ?flt"
  let ?prj = "project w_item (occs ?st1) (oxs ?e) (clear_cond rd, 0)"
  let ?ch = "child_iw rd ?e len c s ?st1"
  let ?s1 = "fst (snd ?ch)"
  let ?st3 = "snd (snd ?ch)"
  let ?st4 = "st_weighed ?st3 ?e len"
  let ?rp = "reported ?st4 (isr_isetx (report ?st4) (pat ?st4) len (wgts ?st4) (supp ?e))"
  have st0x: "?st0 = st\<lparr>pat := (pat st)[len - 1 := i],
                         occs := anchor (oxs ?e) (len - 1) (occs st)\<rparr>"
    by (simp add: st_anchored_def)
  have st4x: "?st4 = ?st3\<lparr>wgts := sum_wgts (dbl ?st3) (occs ?st3) (oxs ?e) len
                                   (zero_wgts [0..<len] (wgts ?st3))\<rparr>"
    by (simp add: st_weighed_def)
  have chx: "?ch = (if \<not> c then (False, 0, ?st1)
           else case project w_item (occs ?st1) (oxs ?e) (clear_cond rd, 0) of
                (cond, z1) \<Rightarrow>
                  if 0 < z1
                  then case rec_iw rd cond z1 len ?st1 of
                       (s', st') \<Rightarrow> (s' < 0, s', st')
                  else (False, s, ?st1))"
    by (simp add: child_iw_def)
  show ?case
  proof (rule L[OF refl refl refl refl refl refl refl refl refl refl])
    assume "i < cnt rd" "supp ?e < smin rd"
    then show "Q rd exts len c (i + 1) mx s st"
      using "2.IH"(1) by simp
  next
    assume "i < cnt rd" "\<not> supp ?e < smin rd" "fst ?flt"
    then show "Q rd exts len c (i + 1) (mx_next mx ?e) s ?st1"
      using "2.IH"(2)[OF _ _ refl refl st0x refl prod.collapse]
      by (simp add: mx_next_def)
  next
    assume "i < cnt rd" "\<not> supp ?e < smin rd" "\<not> fst ?flt" "c" "0 < snd ?prj"
    then show "P rd (fst ?prj) (snd ?prj) len ?st1"
      using "2.IH"(3)[OF _ _ refl refl st0x refl prod.collapse _ _ prod.collapse]
      by simp
  next
    assume a: "i < cnt rd" "\<not> supp ?e < smin rd" "\<not> fst ?flt" "\<not> fst ?ch"
      "closed_mode rd \<and> ?s1 \<ge> supp ?e"
    then show "Q rd exts len c (i + 1) (mx_next mx ?e) ?s1 ?st3"
      using "2.IH"(4)[OF _ _ refl refl st0x refl prod.collapse _ chx prod.collapse
          prod.collapse]
      by (simp add: mx_next_def)
  next
    assume a: "i < cnt rd" "\<not> supp ?e < smin rd" "\<not> fst ?flt" "\<not> fst ?ch"
      "\<not> (closed_mode rd \<and> ?s1 \<ge> supp ?e)" "\<not> fst ?rp < 0"
    then show "Q rd exts len c (i + 1) (mx_next mx ?e) ?s1 (snd ?rp)"
      using "2.IH"(5)[OF _ _ refl refl st0x refl prod.collapse _ chx prod.collapse
          prod.collapse _ _ st4x prod.collapse]
      by (simp add: mx_next_def)
  qed
qed


lemma rec_iw_loop_step:
  assumes "e = exts ! i" and "st0 = st_anchored st len i e"
    and "flt = closed_filter_iw rd e len st0" and "st1 = snd flt"
    and "ch = child_iw rd e len c s st1" and "s1 = fst (snd ch)" and "st3 = snd (snd ch)"
    and "st4 = st_weighed st3 e len"
    and "rp = reported st4 (isr_isetx (report st4) (pat st4) len (wgts st4) (supp e))"
    and "i < cnt rd" and "\<not> supp e < smin rd"
  shows "rec_iw_loop rd exts len c i mx s st =
     (if fst flt then rec_iw_loop rd exts len c (i + 1) (mx_next mx e) s st1
      else if fst ch then (s1, mx_next mx e, st3)
      else if closed_mode rd \<and> s1 \<ge> supp e
      then rec_iw_loop rd exts len c (i + 1) (mx_next mx e) s1 st3
      else if fst rp < 0 then (- 1, mx_next mx e, snd rp)
      else rec_iw_loop rd exts len c (i + 1) (mx_next mx e) s1 (snd rp))"
  using assms(10,11) unfolding assms(1-9)
  by (subst rec_iw_loop_unfold) (simp add: Let_def split_beta)

lemma rec_iw_loop_done: "\<not> i < cnt rd \<Longrightarrow> rec_iw_loop rd exts len c i mx s st = (s, mx, st)"
  by (subst rec_iw_loop_unfold) simp

lemma rec_iw_loop_infreq:
  "i < cnt rd \<Longrightarrow> supp (exts ! i) < smin rd \<Longrightarrow>
     rec_iw_loop rd exts len c i mx s st = rec_iw_loop rd exts len c (i + 1) mx s st"
  by (subst rec_iw_loop_unfold) simp

lemma child_iw_none: "\<not> c \<Longrightarrow> child_iw rd e len c s st = (False, 0, st)"
  by (simp add: child_iw_def)

lemma child_iw_empty:
  "c \<Longrightarrow> \<not> 0 < snd (project w_item (occs st) (oxs e) (clear_cond rd, 0)) \<Longrightarrow>
     child_iw rd e len c s st = (False, s, st)"
  by (simp add: child_iw_def split_beta)

lemma child_iw_rec:
  "c \<Longrightarrow> prj = project w_item (occs st) (oxs e) (clear_cond rd, 0) \<Longrightarrow> 0 < snd prj \<Longrightarrow>
     child_iw rd e len c s st =
       (fst (rec_iw rd (fst prj) (snd prj) len st) < 0,
        fst (rec_iw rd (fst prj) (snd prj) len st),
        snd (rec_iw rd (fst prj) (snd prj) len st))"
  by (simp add: child_iw_def split_beta)

subsection \<open>The value returned by the recursion\<close>

lemma freq_supps_end: "\<not> i < cnt rd \<Longrightarrow> freq_supps rd exts i = []"
  by (simp add: freq_supps_def)

lemma freq_supps_step:
  "i < cnt rd \<Longrightarrow> freq_supps rd exts i =
     (if smin rd \<le> supp (exts ! i) then [supp (exts ! i)] else []) @ freq_supps rd exts (i + 1)"
  by (simp add: freq_supps_def upt_conv_Cons)

lemma foldl_max_step:
  "i < cnt rd \<Longrightarrow> \<not> supp (exts ! i) < smin rd \<Longrightarrow>
     foldl max mx (freq_supps rd exts i) = foldl max (mx_next mx (exts ! i)) (freq_supps rd exts (i + 1))"
  by (simp add: freq_supps_step mx_next_def max_def)

lemma foldl_max_skip:
  "i < cnt rd \<Longrightarrow> supp (exts ! i) < smin rd \<Longrightarrow>
     foldl max mx (freq_supps rd exts i) = foldl max mx (freq_supps rd exts (i + 1))"
  by (simp add: freq_supps_step)

lemma foldl_max_ge: "(m::int) \<le> foldl max m xs"
proof (induction xs arbitrary: m)
  case Nil
  then show ?case by simp
next
  case (Cons x xs)
  have "m \<le> max m x" by simp
  also have "\<dots> \<le> foldl max (max m x) xs" by (rule Cons.IH)
  finally show ?case by simp
qed

lemma entered_failed [simp]: "failed (entered st len) = failed st"
  by (simp add: entered_def)

lemma entered_occs [simp]: "occs (entered st len) = occs st"
  by (simp add: entered_def)

lemma closed_filter_failed [simp]: "failed (snd (closed_filter rd e len st)) = failed st"
  by (simp add: closed_filter_def closed_ext_def Let_def split_beta)

lemma st_added_failed [simp]: "failed (st_added st i e len) = failed st"
  by (simp add: st_added_def)

lemma st_popped_failed [simp]: "failed (st_popped st) = failed st"
  by (simp add: st_popped_def)

lemma reported_failed [simp]:
  "failed (snd (reported st r)) = failed st + (if fst (reported st r) < 0 then 1 else 0)"
  by (simp add: reported_def)

lemma malloc_failed [simp]:
  "failed (snd (malloc st)) = failed st + (if fst (malloc st) then 0 else 1)"
  by (simp add: malloc_def split: list.splits)

lemma mx_next_ge: "0 \<le> mx \<Longrightarrow> 0 \<le> mx_next mx e"
  by (simp add: mx_next_def)

lemma recurse_returns:
  "ret_ok (fst (recurse rd exts z len st)) (failed st) (failed (snd (recurse rd exts z len st)))
     \<and> (0 \<le> fst (recurse rd exts z len st) \<longrightarrow>
          fst (recurse rd exts z len st) = foldl max 0 (freq_supps rd exts 0))"
  and rec_loop_returns:
  "0 \<le> s \<longrightarrow> 0 \<le> mx \<longrightarrow>
     ret_ok (fst (rec_loop rd exts len c i mx s st)) (failed st)
            (failed (snd (snd (rec_loop rd exts len c i mx s st))))
     \<and> (0 \<le> fst (rec_loop rd exts len c i mx s st) \<longrightarrow>
          fst (snd (rec_loop rd exts len c i mx s st)) = foldl max mx (freq_supps rd exts i))"
proof (induction rd exts z len st and rd exts len c i mx s st rule: recurse_induct)
  case (recurse rd exts z len st)
  show ?case
  proof (cases "len + 1 \<le> zmax rd")
    case True
    show ?thesis
    proof (cases "fst (malloc (entered st len))")
      case False
      with True show ?thesis by (simp add: recurse_unfold ret_ok_def)
    next
      case ok: True
      with True recurse(1) foldl_max_ge[of 0 "freq_supps rd exts 0"] show ?thesis
        by (auto simp: recurse_unfold ret_ok_def Let_def)
    qed
  next
    case False
    with recurse(2) foldl_max_ge[of 0 "freq_supps rd exts 0"] show ?thesis
      by (auto simp: recurse_unfold ret_ok_def Let_def)
  qed
next
  case (rec_loop rd exts len c i mx s st e flt st2 prj ch s1 st3 rp)
  note d = rec_loop(1-8)
  let ?L = "rec_loop rd exts len c i mx s st"
  show ?case
  proof (intro impI)
    assume s: "0 \<le> s" and mx: "0 \<le> mx"
    show "ret_ok (fst ?L) (failed st) (failed (snd (snd ?L)))
          \<and> (0 \<le> fst ?L \<longrightarrow> fst (snd ?L) = foldl max mx (freq_supps rd exts i))"
    proof (cases "i < cnt rd")
      case False
      with s show ?thesis by (simp add: rec_loop_done ret_ok_def freq_supps_end)
    next
      case i: True
      show ?thesis
      proof (cases "supp e < smin rd")
        case True
        with i d(1) have "?L = rec_loop rd exts len c (i + 1) mx s st"
          by (simp add: rec_loop_infreq)
        with rec_loop(9)[OF i True] s mx foldl_max_skip[of i rd exts mx] i True d(1)
        show ?thesis by simp
      next
        case f: False
        have mx1: "0 \<le> mx_next mx e" using mx by (rule mx_next_ge)
        have fm: "foldl max mx (freq_supps rd exts i) =
                  foldl max (mx_next mx e) (freq_supps rd exts (i + 1))"
          using foldl_max_step[of i rd exts mx] i f d(1) by simp
        show ?thesis
        proof (cases "fst flt")
          case True
          have "?L = rec_loop rd exts len c (i + 1) (mx_next mx e) s (snd flt)"
            by (rule rec_loop_skip[OF d(1,2) i f True])
          with rec_loop(10)[OF i f True] s mx1 fm d(2) show ?thesis by simp
        next
          case nf: False
          have st2f: "failed st2 = failed st" using d(2,3) by simp
          have chf: "(fst ch \<longrightarrow> s1 = - 1 \<and> failed st3 = failed st + 1)
                   \<and> (\<not> fst ch \<longrightarrow> 0 \<le> s1 \<and> failed st3 = failed st)"
          proof (cases c)
            case False
            with d(5-7) st2f show ?thesis by (simp add: child_none)
          next
            case c: True
            show ?thesis
            proof (cases "0 < snd prj")
              case False
              with c d(4-7) st2f s show ?thesis by (simp add: child_empty)
            next
              case z: True
              from rec_loop(11)[OF i f nf c z] child_rec[OF c d(4) z, of len s] d(5-7) st2f
              show ?thesis by (auto simp: ret_ok_def)
            qed
          qed
          show ?thesis
          proof (cases "fst ch")
            case True
            have "?L = (fst (snd ch), mx_next mx e, snd (snd ch))"
              by (rule rec_loop_break[OF d(1,2,3,5) i f nf True])
            with chf True d(6,7) show ?thesis by (simp add: ret_ok_def)
          next
            case nb: False
            with chf have s1: "0 \<le> s1" and f3: "failed st3 = failed st" by auto
            show ?thesis
            proof (cases "\<not> closed_mode rd \<or> s1 < supp e")
              case rep: True
              show ?thesis
              proof (cases "fst rp < 0")
                case True
                have "?L = (- 1, mx_next mx e, snd rp)"
                  by (rule rec_loop_fail[OF d(1,2,3,5,6,7,8) i f nf nb rep True])
                with True d(8) f3 show ?thesis by (simp add: ret_ok_def)
              next
                case ok: False
                have "?L = rec_loop rd exts len c (i + 1) (mx_next mx e) s1 (st_popped (snd rp))"
                  by (rule rec_loop_report[OF d(1,2,3,5,6,7,8) i f nf nb rep ok])
                with rec_loop(12)[OF i f nf nb rep ok] s1 mx1 fm ok d(8) f3 show ?thesis
                  by simp
              qed
            next
              case q: False
              have "?L = rec_loop rd exts len c (i + 1) (mx_next mx e) s1 (st_popped st3)"
                by (rule rec_loop_quiet[OF d(1,2,3,5,6,7) i f nf nb q])
              with rec_loop(13)[OF i f nf nb q] s1 mx1 fm f3 show ?thesis by simp
            qed
          qed
        qed
      qed
    qed
  qed
qed

lemma closed_filter_iw_failed [simp]: "failed (snd (closed_filter_iw rd e len st)) = failed st"
  by (simp add: closed_filter_iw_def closed_iw_def split_beta)

lemma st_anchored_failed [simp]: "failed (st_anchored st len i e) = failed st"
  by (simp add: st_anchored_def)

lemma st_weighed_failed [simp]: "failed (st_weighed st e len) = failed st"
  by (simp add: st_weighed_def)

lemma rec_iw_returns:
  "ret_ok (fst (rec_iw rd exts z len st)) (failed st) (failed (snd (rec_iw rd exts z len st)))
     \<and> (0 \<le> fst (rec_iw rd exts z len st) \<longrightarrow>
          fst (rec_iw rd exts z len st) = foldl max 0 (freq_supps rd exts 0))"
  and rec_iw_loop_returns:
  "0 \<le> s \<longrightarrow> 0 \<le> mx \<longrightarrow>
     ret_ok (fst (rec_iw_loop rd exts len c i mx s st)) (failed st)
            (failed (snd (snd (rec_iw_loop rd exts len c i mx s st))))
     \<and> (0 \<le> fst (rec_iw_loop rd exts len c i mx s st) \<longrightarrow>
          fst (snd (rec_iw_loop rd exts len c i mx s st)) = foldl max mx (freq_supps rd exts i))"
proof (induction rd exts z len st and rd exts len c i mx s st rule: rec_iw_induct)
  case (rec_iw rd exts z len st)
  show ?case
  proof (cases "len + 1 \<le> zmax rd")
    case True
    show ?thesis
    proof (cases "fst (malloc (entered st len))")
      case False
      with True show ?thesis by (simp add: rec_iw_unfold ret_ok_def)
    next
      case ok: True
      with True rec_iw(1) foldl_max_ge[of 0 "freq_supps rd exts 0"] show ?thesis
        by (auto simp: rec_iw_unfold ret_ok_def Let_def)
    qed
  next
    case False
    with rec_iw(2) foldl_max_ge[of 0 "freq_supps rd exts 0"] show ?thesis
      by (auto simp: rec_iw_unfold ret_ok_def Let_def)
  qed
next
  case (rec_iw_loop rd exts len c i mx s st e st0 flt st1 prj ch s1 st3 st4 rp)
  note d = rec_iw_loop(1-10)
  let ?L = "rec_iw_loop rd exts len c i mx s st"
  show ?case
  proof (intro impI)
    assume s: "0 \<le> s" and mx: "0 \<le> mx"
    show "ret_ok (fst ?L) (failed st) (failed (snd (snd ?L)))
          \<and> (0 \<le> fst ?L \<longrightarrow> fst (snd ?L) = foldl max mx (freq_supps rd exts i))"
    proof (cases "i < cnt rd")
      case False
      with s show ?thesis by (simp add: rec_iw_loop_done ret_ok_def freq_supps_end)
    next
      case i: True
      show ?thesis
      proof (cases "supp e < smin rd")
        case True
        with i d(1) have "?L = rec_iw_loop rd exts len c (i + 1) mx s st"
          by (simp add: rec_iw_loop_infreq)
        with rec_iw_loop(11)[OF i True] s mx foldl_max_skip[of i rd exts mx] i True d(1)
        show ?thesis by simp
      next
        case f: False
        have mx1: "0 \<le> mx_next mx e" using mx by (rule mx_next_ge)
        have fm: "foldl max mx (freq_supps rd exts i) =
                  foldl max (mx_next mx e) (freq_supps rd exts (i + 1))"
          using foldl_max_step[of i rd exts mx] i f d(1) by simp
        note step = rec_iw_loop_step[OF d(1,2,3,4,6,7,8,9,10) i f, of mx]
        have st1f: "failed st1 = failed st" using d(2,3,4) by simp
        show ?thesis
        proof (cases "fst flt")
          case True
          with step have "?L = rec_iw_loop rd exts len c (i + 1) (mx_next mx e) s st1" by simp
          with rec_iw_loop(12)[OF i f True] s mx1 fm st1f show ?thesis by simp
        next
          case nf: False
          have chf: "(fst ch \<longrightarrow> s1 = - 1 \<and> failed st3 = failed st + 1)
                   \<and> (\<not> fst ch \<longrightarrow> 0 \<le> s1 \<and> failed st3 = failed st)"
          proof (cases c)
            case False
            with d(6-8) st1f show ?thesis by (simp add: child_iw_none)
          next
            case c: True
            show ?thesis
            proof (cases "0 < snd prj")
              case False
              with c d(5-8) st1f s show ?thesis by (simp add: child_iw_empty)
            next
              case z: True
              from rec_iw_loop(13)[OF i f nf c z] child_iw_rec[OF c d(5) z, of len s] d(6-8) st1f
              show ?thesis by (auto simp: ret_ok_def)
            qed
          qed
          show ?thesis
          proof (cases "fst ch")
            case True
            with step nf have "?L = (s1, mx_next mx e, st3)" by simp
            with chf True show ?thesis by (simp add: ret_ok_def)
          next
            case nb: False
            with chf have s1: "0 \<le> s1" and f3: "failed st3 = failed st" by auto
            show ?thesis
            proof (cases "closed_mode rd \<and> s1 \<ge> supp e")
              case q: True
              with step nf nb have "?L = rec_iw_loop rd exts len c (i + 1) (mx_next mx e) s1 st3"
                by simp
              with rec_iw_loop(14)[OF i f nf nb q] s1 mx1 fm f3 show ?thesis by simp
            next
              case rep: False
              have f4: "failed st4 = failed st" using d(9) f3 by simp
              show ?thesis
              proof (cases "fst rp < 0")
                case True
                with step nf nb rep have "?L = (- 1, mx_next mx e, snd rp)" by simp
                with True d(10) f4 show ?thesis by (simp add: ret_ok_def)
              next
                case ok: False
                with step nf nb rep
                have "?L = rec_iw_loop rd exts len c (i + 1) (mx_next mx e) s1 (snd rp)"
                  by simp
                with rec_iw_loop(15)[OF i f nf nb rep ok] s1 mx1 fm ok d(10) f4 show ?thesis
                  by simp
              qed
            qed
          qed
        qed
      qed
    qed
  qed
qed

lemma foldl_max_Max: "foldl max (m::int) xs = Max (insert m (set xs))"
proof (induction xs arbitrary: m)
  case Nil
  then show ?case by simp
next
  case (Cons x xs)
  have "foldl max m (x # xs) = Max (insert (max m x) (set xs))" using Cons.IH by simp
  also have "\<dots> = Max (insert m (insert x (set xs)))"
  proof (cases "set xs = {}")
    case True
    then show ?thesis by (simp add: max.commute)
  next
    case False
    then show ?thesis by (simp add: Max_insert max.assoc)
  qed
  finally show ?case by simp
qed

lemma foldl_max_supp:
  assumes "0 \<le> smin rd"
  shows "foldl max 0 (freq_supps rd exts 0) = max_supp rd exts"
proof (cases "freq_supps rd exts 0 = []")
  case True
  then show ?thesis by (simp add: max_supp_def)
next
  case False
  have "\<forall>x\<in>set (freq_supps rd exts 0). 0 \<le> x"
    using assms by (auto simp: freq_supps_def)
  then have "0 \<le> Max (set (freq_supps rd exts 0))"
    using False by (meson List.finite_set Max_ge_iff set_empty last_in_set)
  with False show ?thesis
    by (simp add: max_supp_def foldl_max_Max Max_insert)
qed


text \<open>
  C6. With a minimum support that is not negative, a call of \<^verbatim>\<open>recurse\<close> or
  \<^verbatim>\<open>rec_iw\<close> in which no \<^verbatim>\<open>malloc\<close> and no reporter call fails returns the
  maximum of the supports of the extension items whose support reaches \<^verbatim>\<open>rd->smin\<close>
  (\<open>0\<close> if there is none), whether or not the closedness filter skipped them; a call in
  which one fails returns \<open>-1\<close>.
\<close>

theorem recurse_returns_max_or_error:
  assumes "0 \<le> smin rd"
  shows "(failed (snd (recurse rd exts z len st)) = failed st \<longrightarrow>
            fst (recurse rd exts z len st) = max_supp rd exts)
       \<and> (failed (snd (recurse rd exts z len st)) \<noteq> failed st \<longrightarrow>
            fst (recurse rd exts z len st) = - 1)
       \<and> (failed (snd (rec_iw rd exts z len sw)) = failed sw \<longrightarrow>
            fst (rec_iw rd exts z len sw) = max_supp rd exts)
       \<and> (failed (snd (rec_iw rd exts z len sw)) \<noteq> failed sw \<longrightarrow>
            fst (rec_iw rd exts z len sw) = - 1)"
  using recurse_returns[of rd exts z len st] rec_iw_returns[of rd exts z len sw]
    foldl_max_supp[OF assms, of exts]
  by (auto simp: ret_ok_def split: if_splits)

theorem recurse_returns_max_or_error_witness:
  "fst (recurse (rd_abc 0) exts_abc 7 0 st_abc) = 3
   \<and> fst (recurse (rd_abc 0) exts_abc 7 0 (st_abc\<lparr>heap := [False]\<rparr>)) = - 1
   \<and> fst (rec_iw (rd_w 0) exts_w 4 0 st_w) = 3
   \<and> fst (rec_iw (rd_w 0) exts_w 4 0 (st_w\<lparr>heap := [True, False]\<rparr>)) = - 1"
proof -
  have h: "0 \<le> smin (rd_abc 0)" by code_simp
  have hw: "0 \<le> smin (rd_w 0)" by code_simp
  have m: "max_supp (rd_abc 0) exts_abc = 3" by code_simp
  have mw: "max_supp (rd_w 0) exts_w = 3" by code_simp
  have f1: "failed (snd (recurse (rd_abc 0) exts_abc 7 0 st_abc)) = failed st_abc"
    by code_simp
  have f2: "failed (snd (recurse (rd_abc 0) exts_abc 7 0 (st_abc\<lparr>heap := [False]\<rparr>)))
              \<noteq> failed (st_abc\<lparr>heap := [False]\<rparr>)"
    by code_simp
  have f3: "failed (snd (rec_iw (rd_w 0) exts_w 4 0 st_w)) = failed st_w"
    by code_simp
  have f4: "failed (snd (rec_iw (rd_w 0) exts_w 4 0 (st_w\<lparr>heap := [True, False]\<rparr>)))
              \<noteq> failed (st_w\<lparr>heap := [True, False]\<rparr>)"
    by code_simp
  from recurse_returns_max_or_error[OF h, of exts_abc 7 0 st_abc st_w]
       recurse_returns_max_or_error[OF h, of exts_abc 7 0 "st_abc\<lparr>heap := [False]\<rparr>" st_w]
       recurse_returns_max_or_error[OF hw, of exts_w 4 0 st_abc st_w]
       recurse_returns_max_or_error[OF hw, of exts_w 4 0 st_abc "st_w\<lparr>heap := [True, False]\<rparr>"]
       m mw f1 f2 f3 f4
  show ?thesis by simp
qed

subsection \<open>The driver's closed target\<close>

text \<open>
  C1. Run with the target character \<open>c\<close> on the bag \<open>(a,b,c)\<close>, \<open>(a,c)\<close>, \<open>(a,b)\<close>
  with minimum support 2, \<^verbatim>\<open>main\<close> hands the engine the mode \<open>0\<close>, the closedness
  logic stays off, and the patterns \<open>(b)\<close> and \<open>(c)\<close> are written with support 2 although
  \<open>(a,b)\<close> and \<open>(a,c)\<close> have the same support.
\<close>

theorem main_closed_target_emits_all:
  "main_search bag_abc (CHR ''c'') 2 (new_report 1 4 3) [] =
     Inr (0, (new_report 1 4 3)\<lparr>r_out :=
            [([0, 1], [], 2), ([0, 2], [], 2), ([0], [], 3), ([1], [], 2), ([2], [], 2)]\<rparr>)"
  by code_simp

subsection \<open>Anchoring the new pattern position\<close>

lemma anchor_nth:
  "distinct (map occ xs) \<Longrightarrow> x \<in> set xs \<Longrightarrow> occ x < length os \<Longrightarrow>
   m < length (ips (os ! occ x)) \<Longrightarrow> ips (anchor xs m os ! occ x) ! m = Some (item x)"
proof (induction xs arbitrary: os)
  case Nil
  then show ?case by simp
next
  case (Cons y xs)
  let ?os = "os[occ y := (os ! occ y)\<lparr>ips := (ips (os ! occ y))[m := Some (item y)]\<rparr>]"
  show ?case
  proof (cases "x = y")
    case True
    have "occ y \<notin> occ ` set xs" using Cons.prems(1) by auto
    then have "anchor xs m ?os ! occ y = ?os ! occ y" by (rule anchor_other)
    with True Cons.prems(3,4) show ?thesis by simp
  next
    case False
    with Cons.prems have x: "x \<in> set xs" by simp
    then have "occ x \<in> occ ` set xs" by (rule imageI)
    moreover have "occ y \<notin> occ ` set xs" using Cons.prems(1) by simp
    ultimately have ne: "occ x \<noteq> occ y" by metis
    have "ips (anchor xs m ?os ! occ x) ! m = Some (item x)"
      using Cons.prems ne x by (intro Cons.IH) auto
    then show ?thesis by simp
  qed
qed

lemma closed_filter_all: "\<not> closed_mode rd \<Longrightarrow> closed_filter rd e len st = (False, st)"
  by (simp add: closed_filter_def)

lemma closed_filter_closed:
  "closed_mode rd \<Longrightarrow>
     closed_filter rd e len st = (fst (closed_ext e len st) = 0, snd (closed_ext e len st))"
  by (simp add: closed_filter_def split_beta)

lemma st_added_occs [simp]: "occs (st_added st i e len) = occs st"
  by (simp add: st_added_def)

lemma st_popped_occs [simp]: "occs (st_popped st) = occs st"
  by (simp add: st_popped_def)

lemma reported_occs [simp]: "occs (snd (reported st r)) = occs st"
  by (simp add: reported_def)

lemma malloc_occs [simp]: "occs (snd (malloc st)) = occs st"
  by (simp add: malloc_def split: list.splits)

lemma recurse_all_occs:
  "\<not> closed_mode rd \<longrightarrow> occs (snd (recurse rd exts z len st)) = occs st"
  and rec_loop_all_occs:
  "\<not> closed_mode rd \<longrightarrow> occs (snd (snd (rec_loop rd exts len c i mx s st))) = occs st"
proof (induction rd exts z len st and rd exts len c i mx s st rule: recurse_induct)
  case (recurse rd exts z len st)
  then show ?case by (auto simp: recurse_unfold Let_def)
next
  case (rec_loop rd exts len c i mx s st e flt st2 prj ch s1 st3 rp)
  note d = rec_loop(1-8)
  let ?L = "rec_loop rd exts len c i mx s st"
  show ?case
  proof
    assume a: "\<not> closed_mode rd"
    then have flt: "flt = (False, st)" using d(2) by (simp add: closed_filter_all)
    then have nf: "\<not> fst flt" and st2: "occs st2 = occs st" using d(3) by simp_all
    show "occs (snd (snd ?L)) = occs st"
    proof (cases "i < cnt rd")
      case False
      then show ?thesis by (simp add: rec_loop_done)
    next
      case i: True
      show ?thesis
      proof (cases "supp e < smin rd")
        case True
        with i d(1) rec_loop(9)[OF i True] a show ?thesis by (simp add: rec_loop_infreq)
      next
        case f: False
        have ch3: "occs st3 = occs st"
        proof (cases c)
          case False
          with d(5-7) st2 show ?thesis by (simp add: child_none)
        next
          case c: True
          show ?thesis
          proof (cases "0 < snd prj")
            case False
            with c d(4-7) st2 show ?thesis by (simp add: child_empty)
          next
            case z: True
            from rec_loop(11)[OF i f nf c z] a child_rec[OF c d(4) z, of len s] d(5-7) st2
            show ?thesis by simp
          qed
        qed
        show ?thesis
        proof (cases "fst ch")
          case True
          have "?L = (fst (snd ch), mx_next mx e, snd (snd ch))"
            by (rule rec_loop_break[OF d(1,2,3,5) i f nf True])
          with ch3 d(7) show ?thesis by simp
        next
          case nb: False
          have rep: "\<not> closed_mode rd \<or> s1 < supp e" using a by simp
          show ?thesis
          proof (cases "fst rp < 0")
            case True
            have "?L = (- 1, mx_next mx e, snd rp)"
              by (rule rec_loop_fail[OF d(1,2,3,5,6,7,8) i f nf nb rep True])
            with ch3 d(8) show ?thesis by simp
          next
            case ok: False
            have "?L = rec_loop rd exts len c (i + 1) (mx_next mx e) s1 (st_popped (snd rp))"
              by (rule rec_loop_report[OF d(1,2,3,5,6,7,8) i f nf nb rep ok])
            with rec_loop(12)[OF i f nf nb rep ok] a ch3 d(8) show ?thesis by simp
          qed
        qed
      qed
    qed
  qed
qed


subsection \<open>Termination and depth of the recursion\<close>

lemma entered_deepest [simp]: "deepest (entered st len) = max (deepest st) len"
  by (simp add: entered_def)

lemma malloc_deepest [simp]: "deepest (snd (malloc st)) = deepest st"
  by (simp add: malloc_def split: list.splits)

lemma reported_deepest [simp]: "deepest (snd (reported st r)) = deepest st"
  by (simp add: reported_def)

lemma st_added_deepest [simp]: "deepest (st_added st i e len) = deepest st"
  by (simp add: st_added_def)

lemma st_popped_deepest [simp]: "deepest (st_popped st) = deepest st"
  by (simp add: st_popped_def)

lemma closed_filter_deepest [simp]: "deepest (snd (closed_filter rd e len st)) = deepest st"
  by (simp add: closed_filter_def closed_ext_def Let_def split_beta)

lemma closed_filter_iw_deepest [simp]: "deepest (snd (closed_filter_iw rd e len st)) = deepest st"
  by (simp add: closed_filter_iw_def closed_iw_def split_beta)

lemma st_anchored_deepest [simp]: "deepest (st_anchored st len i e) = deepest st"
  by (simp add: st_anchored_def)

lemma st_weighed_deepest [simp]: "deepest (st_weighed st e len) = deepest st"
  by (simp add: st_weighed_def)

lemma recurse_depth:
  "deepest (snd (recurse rd exts z len st)) \<le> max (deepest st) (max len (zmax rd))"
  and rec_loop_depth:
  "deepest (snd (snd (rec_loop rd exts len c i mx s st)))
     \<le> max (deepest st) (if c then max len (zmax rd) else 0)"
proof (induction rd exts z len st and rd exts len c i mx s st rule: recurse_induct)
  case (recurse rd exts z len st)
  show ?case
  proof (cases "len + 1 \<le> zmax rd")
    case True
    show ?thesis
    proof (cases "fst (malloc (entered st len))")
      case False
      with True show ?thesis by (simp add: recurse_unfold)
    next
      case ok: True
      with True recurse(1) show ?thesis by (simp add: recurse_unfold Let_def)
    qed
  next
    case False
    with recurse(2) show ?thesis by (simp add: recurse_unfold Let_def)
  qed
next
  case (rec_loop rd exts len c i mx s st e flt st2 prj ch s1 st3 rp)
  note d = rec_loop(1-8)
  let ?L = "rec_loop rd exts len c i mx s st"
  let ?B = "max (deepest st) (if c then max len (zmax rd) else 0)"
  show ?case
  proof (cases "i < cnt rd")
    case False
    then show ?thesis by (simp add: rec_loop_done)
  next
    case i: True
    show ?thesis
    proof (cases "supp e < smin rd")
      case True
      with i d(1) rec_loop(9)[OF i True] show ?thesis by (simp add: rec_loop_infreq)
    next
      case f: False
      show ?thesis
      proof (cases "fst flt")
        case True
        have "?L = rec_loop rd exts len c (i + 1) (mx_next mx e) s (snd flt)"
          by (rule rec_loop_skip[OF d(1,2) i f True])
        with rec_loop(10)[OF i f True] d(2) show ?thesis by simp
      next
        case nf: False
        have st2f: "deepest st2 = deepest st" using d(2,3) by simp
        have ch3: "deepest st3 \<le> ?B"
        proof (cases c)
          case False
          with d(5-7) st2f show ?thesis by (simp add: child_none)
        next
          case c: True
          show ?thesis
          proof (cases "0 < snd prj")
            case False
            with c d(4-7) st2f show ?thesis by (simp add: child_empty)
          next
            case z: True
            from rec_loop(11)[OF i f nf c z] child_rec[OF c d(4) z, of len s] d(5-7) st2f c
            show ?thesis by simp
          qed
        qed
        show ?thesis
        proof (cases "fst ch")
          case True
          have "?L = (fst (snd ch), mx_next mx e, snd (snd ch))"
            by (rule rec_loop_break[OF d(1,2,3,5) i f nf True])
          with ch3 d(7) show ?thesis by simp
        next
          case nb: False
          show ?thesis
          proof (cases "\<not> closed_mode rd \<or> s1 < supp e")
            case rep: True
            show ?thesis
            proof (cases "fst rp < 0")
              case True
              have "?L = (- 1, mx_next mx e, snd rp)"
                by (rule rec_loop_fail[OF d(1,2,3,5,6,7,8) i f nf nb rep True])
              with ch3 d(8) show ?thesis by simp
            next
              case ok: False
              have "?L = rec_loop rd exts len c (i + 1) (mx_next mx e) s1 (st_popped (snd rp))"
                by (rule rec_loop_report[OF d(1,2,3,5,6,7,8) i f nf nb rep ok])
              with rec_loop(12)[OF i f nf nb rep ok] ch3 d(8) show ?thesis by auto
            qed
          next
            case q: False
            have "?L = rec_loop rd exts len c (i + 1) (mx_next mx e) s1 (st_popped st3)"
              by (rule rec_loop_quiet[OF d(1,2,3,5,6,7) i f nf nb q])
            with rec_loop(13)[OF i f nf nb q] ch3 show ?thesis by auto
          qed
        qed
      qed
    qed
  qed
qed

lemma rec_iw_depth:
  "deepest (snd (rec_iw rd exts z len st)) \<le> max (deepest st) (max len (zmax rd))"
  and rec_iw_loop_depth:
  "deepest (snd (snd (rec_iw_loop rd exts len c i mx s st)))
     \<le> max (deepest st) (if c then max len (zmax rd) else 0)"
proof (induction rd exts z len st and rd exts len c i mx s st rule: rec_iw_induct)
  case (rec_iw rd exts z len st)
  show ?case
  proof (cases "len + 1 \<le> zmax rd")
    case True
    show ?thesis
    proof (cases "fst (malloc (entered st len))")
      case False
      with True show ?thesis by (simp add: rec_iw_unfold)
    next
      case ok: True
      with True rec_iw(1) show ?thesis by (simp add: rec_iw_unfold Let_def)
    qed
  next
    case False
    with rec_iw(2) show ?thesis by (simp add: rec_iw_unfold Let_def)
  qed
next
  case (rec_iw_loop rd exts len c i mx s st e st0 flt st1 prj ch s1 st3 st4 rp)
  note d = rec_iw_loop(1-10)
  let ?L = "rec_iw_loop rd exts len c i mx s st"
  let ?B = "max (deepest st) (if c then max len (zmax rd) else 0)"
  show ?case
  proof (cases "i < cnt rd")
    case False
    then show ?thesis by (simp add: rec_iw_loop_done)
  next
    case i: True
    show ?thesis
    proof (cases "supp e < smin rd")
      case True
      with i d(1) rec_iw_loop(11)[OF i True] show ?thesis by (simp add: rec_iw_loop_infreq)
    next
      case f: False
      note step = rec_iw_loop_step[OF d(1,2,3,4,6,7,8,9,10) i f, of mx]
      have st1f: "deepest st1 = deepest st" using d(2,3,4) by simp
      show ?thesis
      proof (cases "fst flt")
        case True
        with step have "?L = rec_iw_loop rd exts len c (i + 1) (mx_next mx e) s st1" by simp
        with rec_iw_loop(12)[OF i f True] st1f show ?thesis by simp
      next
        case nf: False
        have ch3: "deepest st3 \<le> ?B"
        proof (cases c)
          case False
          with d(6-8) st1f show ?thesis by (simp add: child_iw_none)
        next
          case c: True
          show ?thesis
          proof (cases "0 < snd prj")
            case False
            with c d(5-8) st1f show ?thesis by (simp add: child_iw_empty)
          next
            case z: True
            from rec_iw_loop(13)[OF i f nf c z] child_iw_rec[OF c d(5) z, of len s] d(6-8) st1f c
            show ?thesis by simp
          qed
        qed
        show ?thesis
        proof (cases "fst ch")
          case True
          with step nf have "?L = (s1, mx_next mx e, st3)" by simp
          with ch3 show ?thesis by simp
        next
          case nb: False
          show ?thesis
          proof (cases "closed_mode rd \<and> s1 \<ge> supp e")
            case q: True
            with step nf nb have "?L = rec_iw_loop rd exts len c (i + 1) (mx_next mx e) s1 st3"
              by simp
            with rec_iw_loop(14)[OF i f nf nb q] ch3 show ?thesis by auto
          next
            case rep: False
            have f4: "deepest st4 = deepest st3" using d(9) by simp
            show ?thesis
            proof (cases "fst rp < 0")
              case True
              with step nf nb rep have "?L = (- 1, mx_next mx e, snd rp)" by simp
              with d(10) f4 ch3 show ?thesis by simp
            next
              case ok: False
              with step nf nb rep
              have "?L = rec_iw_loop rd exts len c (i + 1) (mx_next mx e) s1 (snd rp)"
                by simp
              with rec_iw_loop(15)[OF i f nf nb rep ok] d(10) f4 ch3 show ?thesis by auto
            qed
          qed
        qed
      qed
    qed
  qed
qed

lemma recurse_dom_all: "All recurse_rec_loop_dom"
  by (relation "inv_image (less_than <*lex*> less_than)
        (\<lambda>x. case x of
           Inl (rd, exts, z, len, st) \<Rightarrow> (2 * (zmax rd + 1 - len) + 1, 0)
         | Inr (rd, exts, len, c, i, mx, s, st) \<Rightarrow>
             (if c then 2 * (zmax rd + 1 - len) + 2 else 0, cnt rd - i))")
     auto

lemma rec_iw_dom_all: "All rec_iw_rec_iw_loop_dom"
  by (relation "inv_image (less_than <*lex*> less_than)
        (\<lambda>x. case x of
           Inl (rd, exts, z, len, st) \<Rightarrow> (2 * (zmax rd + 1 - len) + 1, 0)
         | Inr (rd, exts, len, c, i, mx, s, st) \<Rightarrow>
             (if c then 2 * (zmax rd + 1 - len) + 2 else 0, cnt rd - i))")
     auto

text \<open>
  C10. \<^verbatim>\<open>recurse\<close> and \<^verbatim>\<open>rec_iw\<close> terminate on every input: every argument lies
  in the well-founded part of the call relation of the recursion and its loop (a call
  from the loop needs the block \<^verbatim>\<open>cond\<close>, which is there only if
  \<^verbatim>\<open>len + 1 <= rd->zmax\<close>; the loop runs over the \<^verbatim>\<open>rd->cnt\<close> items), and the
  recursion is never entered with a pattern length above \<^verbatim>\<open>zmax\<close>, the length of
  the outermost call apart.
\<close>

theorem recursion_terminates_within_zmax:
  "recurse_rec_loop_dom (Inl (rd, exts, z, len, st))
   \<and> rec_iw_rec_iw_loop_dom (Inl (rd, exts, z, len, sw))
   \<and> deepest (snd (recurse rd exts z len st)) \<le> max (deepest st) (max len (zmax rd))
   \<and> deepest (snd (rec_iw rd exts z len sw)) \<le> max (deepest sw) (max len (zmax rd))"
  using recurse_dom_all rec_iw_dom_all recurse_depth rec_iw_depth by blast

subsection \<open>Errors of the weighted recursion\<close>

text \<open>
  C3. On the weighted bag of scenario 4, when the allocation inside \<^verbatim>\<open>rec_iw\<close> fails
  (the fourth \<^verbatim>\<open>malloc\<close> of the run), \<^verbatim>\<open>rec_iw\<close> returns \<open>-1\<close>, but
  \<^verbatim>\<open>sequoia_iw\<close> then reports the empty sequence and returns \<open>0\<close>; \<^verbatim>\<open>sequoia\<close>
  returns \<open>-1\<close> in the same situation.
\<close>

theorem sequoia_iw_loses_error:
  "fst (rec_iw (mk_rd bag_w 0 3 0 (new_report 0 4 3))
          (root_exts w_item 0 (mk_occs bag_w) (clear_cond (mk_rd bag_w 0 3 0 (new_report 0 4 3))))
          (tbg_extent bag_w) 0 (mk_store bag_w (new_report 0 4 3) [False] rnd 0)) = - 1
   \<and> sequoia_iw rnd bag_w 0 3 0 (new_report 0 4 3) [True, True, True, False] =
       (0, (new_report 0 4 3)\<lparr>r_out := [([], [], 3)]\<rparr>)
   \<and> fst (sequoia bag_abc 0 2 0 (new_report 0 4 3) [True, True, True, False]) = - 1"
  by code_simp

subsection \<open>All frequent sequences\<close>






lemma hit_Cons: "hit key t (y # ts) = (if key y = t then 0 else Suc (hit key t ts))"
  by (simp add: hit_def)

lemma hit_less: "t \<in> key ` set ts \<Longrightarrow> hit key t ts < length ts"
  unfolding hit_def by (induction ts) auto


lemma tail_walk_spec:
  assumes "distinct (map key ts)" and "\<forall>y\<in>set ts. key y < length cond"
    and "tail_walk key oi w p ts (cond, z) = (cond', z')"
  shows "length cond' = length cond \<and> z' = z + length ts
       \<and> (\<forall>t<length cond. cond' ! t =
             (if t \<in> key ` set ts
              then (cond ! t)\<lparr>supp := SUPP_add (supp (cond ! t)) w,
                             oxs := oxs (cond ! t) @ [\<lparr>item = p + hit key t ts, occ = oi\<rparr>]\<rparr>
              else cond ! t))"
  using assms
proof (induction ts arbitrary: cond z p)
  case Nil
  then show ?case by simp
next
  case (Cons y ts)
  let ?c = "cond[key y := (cond ! key y)\<lparr>supp := SUPP_add (supp (cond ! key y)) w,
                              oxs := oxs (cond ! key y) @ [\<lparr>item = p, occ = oi\<rparr>]\<rparr>]"
  have d: "distinct (map key ts)" and ny: "key y \<notin> key ` set ts"
    using Cons.prems(1) by auto
  have r: "\<forall>x\<in>set ts. key x < length ?c" using Cons.prems(2) by simp
  have w: "tail_walk key oi w (p + 1) ts (?c, z + 1) = (cond', z')"
    using Cons.prems(3) by simp
  from Cons.IH[OF d r w]
  have l: "length cond' = length cond" and zz: "z' = z + length (y # ts)"
    and v: "\<forall>t<length cond. cond' ! t =
             (if t \<in> key ` set ts
              then (?c ! t)\<lparr>supp := SUPP_add (supp (?c ! t)) w,
                           oxs := oxs (?c ! t) @ [\<lparr>item = p + 1 + hit key t ts, occ = oi\<rparr>]\<rparr>
              else ?c ! t)"
    by auto
  have "\<forall>t<length cond. cond' ! t =
             (if t \<in> key ` set (y # ts)
              then (cond ! t)\<lparr>supp := SUPP_add (supp (cond ! t)) w,
                             oxs := oxs (cond ! t) @ [\<lparr>item = p + hit key t (y # ts), occ = oi\<rparr>]\<rparr>
              else cond ! t)"
  proof (intro allI impI)
    fix t assume t: "t < length cond"
    show "cond' ! t =
             (if t \<in> key ` set (y # ts)
              then (cond ! t)\<lparr>supp := SUPP_add (supp (cond ! t)) w,
                             oxs := oxs (cond ! t) @ [\<lparr>item = p + hit key t (y # ts), occ = oi\<rparr>]\<rparr>
              else cond ! t)"
    proof (cases "t = key y")
      case True
      with v t ny show ?thesis by (simp add: hit_Cons)
    next
      case False
      then have "?c ! t = cond ! t" by simp
      with v t False show ?thesis by (simp add: hit_Cons)
    qed
  qed
  with l zz show ?case by simp
qed

lemma project_spec:
  assumes "\<forall>x\<in>set xs. wf_occ key (length cond) (os ! occ x)"
    and "project key os xs (cond, z) = (cond', z')"
  shows "length cond' = length cond
       \<and> z' = z + sum_list (map (\<lambda>x. length (tail_of os x)) xs)
       \<and> (\<forall>t<length cond.
             oxs (cond' ! t) = oxs (cond ! t) @ map (proj_ext key os t) (sel key os t xs)
             \<and> supp (cond' ! t) =
                 foldl SUPP_add (supp (cond ! t)) (map (\<lambda>x. wgt (os ! occ x)) (sel key os t xs)))"
  using assms
proof (induction xs arbitrary: cond z)
  case Nil
  then show ?case by (simp add: sel_def)
next
  case (Cons x xs)
  obtain c1 z1 where tw: "tail_walk key (occ x) (wgt (os ! occ x)) (item x + 1) (tail_of os x) (cond, z)
      = (c1, z1)" by (cases "tail_walk key (occ x) (wgt (os ! occ x)) (item x + 1) (tail_of os x) (cond, z)")
  have wf: "wf_occ key (length cond) (os ! occ x)" using Cons.prems(1) by simp
  have d: "distinct (map key (tail_of os x))"
    using wf by (simp add: wf_occ_def tail_of_def drop_map[symmetric] distinct_drop del: drop_map)
  have r: "\<forall>y\<in>set (tail_of os x). key y < length cond"
    using wf by (auto simp: wf_occ_def tail_of_def dest: in_set_dropD)
  from tail_walk_spec[OF d r tw]
  have l1: "length c1 = length cond" and z1: "z1 = z + length (tail_of os x)"
    and v1: "\<forall>t<length cond. c1 ! t =
             (if t \<in> key ` set (tail_of os x)
              then (cond ! t)\<lparr>supp := SUPP_add (supp (cond ! t)) (wgt (os ! occ x)),
                     oxs := oxs (cond ! t) @ [\<lparr>item = item x + 1 + hit key t (tail_of os x), occ = occ x\<rparr>]\<rparr>
              else cond ! t)"
    by auto
  have p: "project key os xs (c1, z1) = (cond', z')"
    using Cons.prems(2) tw by (simp add: tail_of_def)
  have wf1: "\<forall>x\<in>set xs. wf_occ key (length c1) (os ! occ x)"
    using Cons.prems(1) l1 by simp
  from Cons.IH[OF wf1 p]
  have l: "length cond' = length c1"
    and zz: "z' = z1 + sum_list (map (\<lambda>x. length (tail_of os x)) xs)"
    and v: "\<forall>t<length c1.
             oxs (cond' ! t) = oxs (c1 ! t) @ map (proj_ext key os t) (sel key os t xs)
             \<and> supp (cond' ! t) =
                 foldl SUPP_add (supp (c1 ! t)) (map (\<lambda>x. wgt (os ! occ x)) (sel key os t xs))"
    by auto
  have "\<forall>t<length cond.
             oxs (cond' ! t) = oxs (cond ! t) @ map (proj_ext key os t) (sel key os t (x # xs))
             \<and> supp (cond' ! t) =
                 foldl SUPP_add (supp (cond ! t)) (map (\<lambda>x. wgt (os ! occ x)) (sel key os t (x # xs)))"
  proof (intro allI impI)
    fix t assume t: "t < length cond"
    show "oxs (cond' ! t) = oxs (cond ! t) @ map (proj_ext key os t) (sel key os t (x # xs))
             \<and> supp (cond' ! t) =
                 foldl SUPP_add (supp (cond ! t)) (map (\<lambda>x. wgt (os ! occ x)) (sel key os t (x # xs)))"
    proof (cases "t \<in> key ` set (tail_of os x)")
      case True
      with v v1 t l1 show ?thesis by (simp add: sel_def proj_ext_def)
    next
      case False
      with v v1 t l1 show ?thesis by (simp add: sel_def)
    qed
  qed
  with l l1 zz z1 show ?case by simp
qed



lemma filter_occ:
  "map occ (filter (\<lambda>x. P (occ x)) xs) = filter P (map occ xs)"
  by (induction xs) auto






lemma root_exts_spec:
  assumes "rest = drop j os" and "wf_occs key (length exts) os"
  shows "length (root_exts key j rest exts) = length exts
       \<and> (\<forall>t<length exts.
             oxs (root_exts key j rest exts ! t) =
               oxs (exts ! t) @ map (root_ext key os t)
                                  (filter (\<lambda>j'. t \<in> set (keys key os j')) [j..<length os])
             \<and> supp (root_exts key j rest exts ! t) =
                 foldl SUPP_add (supp (exts ! t)) (map (\<lambda>j'. wgt (os ! j'))
                                  (filter (\<lambda>j'. t \<in> set (keys key os j')) [j..<length os])))"
  using assms
proof (induction rest arbitrary: j exts)
  case Nil
  then have "length os \<le> j" by simp
  then show ?case by simp
next
  case (Cons po rest)
  have j: "j < length os" using Cons.prems(1) by (metis drop_eq_Nil list.distinct(1) not_le)
  then have po: "po = os ! j" and rest: "rest = drop (j + 1) os"
    using Cons.prems(1) by (simp_all add: Cons_nth_drop_Suc[symmetric])
  obtain c1 z1 where tw: "tail_walk key j (wgt po) 0 (items po) (exts, 0) = (c1, z1)"
    by (cases "tail_walk key j (wgt po) 0 (items po) (exts, 0)")
  have wf: "wf_occ key (length exts) po" using Cons.prems(2) j po by (simp add: wf_occs_def)
  have d: "distinct (map key (items po))" and r: "\<forall>y\<in>set (items po). key y < length exts"
    using wf by (simp_all add: wf_occ_def)
  from tail_walk_spec[OF d r tw]
  have l1: "length c1 = length exts"
    and v1: "\<forall>t<length exts. c1 ! t =
             (if t \<in> key ` set (items po)
              then (exts ! t)\<lparr>supp := SUPP_add (supp (exts ! t)) (wgt po),
                     oxs := oxs (exts ! t) @ [\<lparr>item = 0 + hit key t (items po), occ = j\<rparr>]\<rparr>
              else exts ! t)"
    by auto
  have wf1: "wf_occs key (length c1) os" using Cons.prems(2) l1 by simp
  have up: "[j..<length os] = j # [j + 1..<length os]" using j by (simp add: upt_conv_Cons)
  have eq: "root_exts key j (po # rest) exts = root_exts key (j + 1) rest c1"
    using tw by simp
  from Cons.IH[OF rest wf1]
  have l: "length (root_exts key (j + 1) rest c1) = length c1"
    and v: "\<forall>t<length c1.
             oxs (root_exts key (j + 1) rest c1 ! t) =
               oxs (c1 ! t) @ map (root_ext key os t)
                                  (filter (\<lambda>j'. t \<in> set (keys key os j')) [j + 1..<length os])
             \<and> supp (root_exts key (j + 1) rest c1 ! t) =
                 foldl SUPP_add (supp (c1 ! t)) (map (\<lambda>j'. wgt (os ! j'))
                                  (filter (\<lambda>j'. t \<in> set (keys key os j')) [j + 1..<length os]))"
    by auto
  show ?case
    unfolding eq up
  proof (intro conjI allI impI)
    show "length (root_exts key (j + 1) rest c1) = length exts" using l l1 by simp
  next
    fix t assume t: "t < length exts"
    show "oxs (root_exts key (j + 1) rest c1 ! t) =
            oxs (exts ! t) @ map (root_ext key os t)
               (filter (\<lambda>j'. t \<in> set (keys key os j')) (j # [j + 1..<length os]))"
      using v v1 t l1 po by (simp add: keys_def root_ext_def)
  next
    fix t assume t: "t < length exts"
    show "supp (root_exts key (j + 1) rest c1 ! t) =
            foldl SUPP_add (supp (exts ! t)) (map (\<lambda>j'. wgt (os ! j'))
               (filter (\<lambda>j'. t \<in> set (keys key os j')) (j # [j + 1..<length os])))"
      using v v1 t l1 po by (simp add: keys_def)
  qed
qed





lemma report_zmax [simp]: "r_zmax (snd (isr_isetx rep its n ws s)) = r_zmax rep"
  by (simp add: isr_isetx_def split: list.splits)

lemma report_zmin [simp]: "r_zmin (snd (isr_isetx rep its n ws s)) = r_zmin rep"
  by (simp add: isr_isetx_def split: list.splits)



lemma entered_heap [simp]: "heap (entered st len) = heap st"
  by (simp add: entered_def)

lemma entered_report [simp]: "report (entered st len) = report st"
  by (simp add: entered_def)

lemma all_ok_entered [simp]: "all_ok rd exts (entered st len) = all_ok rd exts st"
  by (simp add: all_ok_def)

lemma emitted_entered [simp]: "emitted_item rd (entered st len) c d i = emitted_item rd st c d i"
  by (simp add: emitted_item_def)

lemma out_append:
  "rep' = rep\<lparr>r_out := r_out rep @ a\<rparr> \<Longrightarrow> rep'' = rep'\<lparr>r_out := r_out rep' @ b\<rparr> \<Longrightarrow>
     rep'' = rep\<lparr>r_out := r_out rep @ a @ b\<rparr>"
  by simp







lemma wf_bag_occs: "wf_bag key bag \<Longrightarrow> wf_occs key (itemcnt bag) (mk_occs bag)"
  by (auto simp: wf_bag_def wf_occs_def wf_occ_def mk_occs_def)










subsection \<open>Anchors in closed mode\<close>

lemma same_shape_refl [simp]: "same_shape os os"
  by (simp add: same_shape_def)

lemma same_shape_trans: "same_shape a b \<Longrightarrow> same_shape b c \<Longrightarrow> same_shape a c"
  by (simp add: same_shape_def)

lemma kept_refl [simp]: "kept st st"
  by (simp add: kept_def)

lemma kept_trans: "kept a b \<Longrightarrow> kept b c \<Longrightarrow> kept a c"
  using same_shape_trans by (auto simp: kept_def)

lemma anchor_ips_length:
  "j < length os \<Longrightarrow> length (ips (anchor xs m os ! j)) = length (ips (os ! j))"
proof (induction xs arbitrary: os)
  case Nil
  then show ?case by simp
next
  case (Cons x xs)
  let ?os = "os[occ x := (os ! occ x)\<lparr>ips := (ips (os ! occ x))[m := Some (item x)]\<rparr>]"
  have "length (ips (anchor xs m ?os ! j)) = length (ips (?os ! j))"
    using Cons.prems by (intro Cons.IH) simp
  also have "\<dots> = length (ips (os ! j))"
    using Cons.prems by (cases "occ x = j") simp_all
  finally show ?case by simp
qed

lemma anchor_shape: "same_shape os (anchor xs m os)"
  by (simp add: same_shape_def anchor_items anchor_ips_length)

lemma wf_occs_nth: "wf_occs key k os = (\<forall>j<length os. wf_occ key k (os ! j))"
  by (simp add: wf_occs_def all_set_conv_all_nth)

lemma frame_ok_shape:
  assumes s: "same_shape os os'" and f: "frame_ok k exts len os"
  shows "frame_ok k exts len os'"
proof -
  have l: "length os' = length os"
    and i: "\<And>j. j < length os \<Longrightarrow> items (os' ! j) = items (os ! j)"
    and p: "\<And>j. j < length os \<Longrightarrow> length (ips (os' ! j)) = length (ips (os ! j))"
    using s by (simp_all add: same_shape_def)
  have "wf_occs (\<lambda>x. x) k os'"
    using f l i unfolding frame_ok_def wf_occs_nth wf_occ_def by simp
  moreover have "ips_sized os'"
    using f l i p unfolding frame_ok_def ips_sized_def all_set_conv_all_nth by simp
  moreover have "length exts = k" using f by (simp add: frame_ok_def)
  moreover have "\<forall>t<k. distinct (map occ (oxs (exts ! t)))
                \<and> (\<forall>x\<in>set (oxs (exts ! t)).
                      occ x < length os' \<and> len \<le> item x \<and> item x < length (items (os' ! occ x)))"
    using f l i unfolding frame_ok_def by simp
  ultimately show ?thesis unfolding frame_ok_def by simp
qed

lemma missing_zero:
  "\<forall>x\<in>set xs. ips (os ! occ x) ! m = Some (item x) \<Longrightarrow> missing_anchors os xs m = 0"
  by (simp add: missing_anchors_def)

lemma anchored_missing:
  assumes "distinct (map occ xs)"
    and "\<forall>x\<in>set xs. occ x < length os \<and> m < length (ips (os ! occ x))"
  shows "missing_anchors (anchor xs m os) xs m = 0"
proof (rule missing_zero, rule ballI)
  fix x assume x: "x \<in> set xs"
  with assms(2) have b: "occ x < length os" "m < length (ips (os ! occ x))" by simp_all
  show "ips (anchor xs m os ! occ x) ! m = Some (item x)"
    by (rule anchor_nth[OF assms(1) x b])
qed

lemma project_frame:
  assumes f: "frame_ok k exts len os" and i: "i < k"
    and p: "project (\<lambda>x. x) os (oxs (exts ! i)) (replicate k \<lparr>supp = 0, oxs = []\<rparr>, 0) = (cond, z)"
  shows "frame_ok k cond (len + 1) os"
proof -
  let ?e = "exts ! i"
  let ?c0 = "replicate k \<lparr>supp = 0, oxs = []\<rparr>"
  have wf: "wf_occs (\<lambda>x. x) k os" and sz: "ips_sized os"
    and d: "distinct (map occ (oxs ?e))"
    and b: "\<forall>x\<in>set (oxs ?e). occ x < length os \<and> len \<le> item x \<and> item x < length (items (os ! occ x))"
    using f i by (simp_all add: frame_ok_def)
  have w: "\<forall>x\<in>set (oxs ?e). wf_occ (\<lambda>x. x) (length ?c0) (os ! occ x)"
    using wf b by (simp add: wf_occs_def)
  from project_spec[OF w p]
  have l: "length cond = k"
    and v: "\<forall>t<k. oxs (cond ! t) = map (proj_ext (\<lambda>x. x) os t) (sel (\<lambda>x. x) os t (oxs ?e))"
    by auto
  have "\<forall>t<k. distinct (map occ (oxs (cond ! t)))
                \<and> (\<forall>x\<in>set (oxs (cond ! t)).
                      occ x < length os \<and> len + 1 \<le> item x \<and> item x < length (items (os ! occ x)))"
  proof (intro allI impI conjI ballI)
    fix t assume t: "t < k"
    have "map occ (oxs (cond ! t)) = map occ (sel (\<lambda>x. x) os t (oxs ?e))"
      using v t by (simp add: proj_ext_def comp_def)
    also have "\<dots> = map occ (filter (\<lambda>x. t \<in> set (tail_of os x)) (oxs ?e))"
      by (simp add: sel_def)
    finally show "distinct (map occ (oxs (cond ! t)))"
      using d by (simp add: distinct_map_filter)
  next
    fix t x' assume t: "t < k" and "x' \<in> set (oxs (cond ! t))"
    then obtain x where x: "x \<in> set (oxs ?e)" and tt: "t \<in> (\<lambda>x. x) ` set (tail_of os x)"
      and x': "x' = proj_ext (\<lambda>x. x) os t x"
      using v by (auto simp: sel_def)
    have h: "hit (\<lambda>x. x) t (tail_of os x) < length (tail_of os x)" using tt by (rule hit_less)
    then have "item x + 1 + hit (\<lambda>x. x) t (tail_of os x) < length (items (os ! occ x))"
      by (simp add: tail_of_def)
    moreover have "occ x < length os" "len \<le> item x" using b x by simp_all
    ultimately show "occ x' < length os" "len + 1 \<le> item x'"
      "item x' < length (items (os ! occ x'))"
      using x' by (simp_all add: proj_ext_def)
  qed
  with wf sz l show ?thesis by (simp add: frame_ok_def)
qed

lemma root_frame:
  assumes wf: "wf_occs (\<lambda>x. x) k os" and sz: "ips_sized os"
  shows "frame_ok k (root_exts (\<lambda>x. x) 0 os (replicate k \<lparr>supp = 0, oxs = []\<rparr>)) 0 os"
proof -
  let ?c0 = "replicate k \<lparr>supp = 0, oxs = []\<rparr>"
  let ?r = "root_exts (\<lambda>x. x) 0 os ?c0"
  have w: "wf_occs (\<lambda>x. x) (length ?c0) os" using wf by simp
  from root_exts_spec[of os 0 os "\<lambda>x. x" ?c0, OF _ w]
  have l: "length ?r = k"
    and v: "\<forall>t<k. oxs (?r ! t) = map (root_ext (\<lambda>x. x) os t)
                       (filter (\<lambda>j'. t \<in> set (keys (\<lambda>x. x) os j')) [0..<length os])"
    by auto
  have "\<forall>t<k. distinct (map occ (oxs (?r ! t)))
                \<and> (\<forall>x\<in>set (oxs (?r ! t)).
                      occ x < length os \<and> 0 \<le> item x \<and> item x < length (items (os ! occ x)))"
  proof (intro allI impI conjI ballI)
    fix t assume t: "t < k"
    have "map occ (oxs (?r ! t)) = filter (\<lambda>j'. t \<in> set (keys (\<lambda>x. x) os j')) [0..<length os]"
      using v t by (simp add: root_ext_def comp_def)
    then show "distinct (map occ (oxs (?r ! t)))" by simp
  next
    fix t x assume t: "t < k" and "x \<in> set (oxs (?r ! t))"
    then obtain j where j: "j < length os" "t \<in> set (keys (\<lambda>x. x) os j)"
      and x: "x = root_ext (\<lambda>x. x) os t j"
      using v by auto
    from j have m: "t \<in> (\<lambda>x. x) ` set (items (os ! j))" by (simp add: keys_def)
    from hit_less[OF m] x j
    show "occ x < length os" "0 \<le> item x" "item x < length (items (os ! occ x))"
      by (simp_all add: root_ext_def)
  qed
  with wf sz l show ?thesis by (simp add: frame_ok_def)
qed

lemma entered_kept [simp]: "kept st (entered st len)"
  by (simp add: kept_def entered_def)

lemma malloc_kept [simp]: "kept st (snd (malloc st))"
  by (simp add: kept_def malloc_def split: list.splits)

lemma reported_kept [simp]: "kept st (snd (reported st r))"
  by (simp add: kept_def reported_def)

lemma st_popped_kept [simp]: "kept st (st_popped st)"
  by (simp add: kept_def st_popped_def)

lemma closed_filter_kept: "kept st (snd (closed_filter rd e len st))"
  by (simp add: kept_def closed_filter_def closed_ext_def Let_def split_beta anchor_shape)

lemma kept_frame: "kept st st' \<Longrightarrow> frame_ok k exts len (occs st) \<Longrightarrow> frame_ok k exts len (occs st')"
  using frame_ok_shape by (auto simp: kept_def)

lemma closed_filter_anchors:
  assumes c: "closed_mode rd" and l: "0 < len" and i: "i < k"
    and f: "frame_ok k exts (len - 1) (occs st)"
  shows "missing_anchors (occs (snd (closed_filter rd (exts ! i) len st))) (oxs (exts ! i)) (len - 1) = 0"
proof -
  let ?e = "exts ! i"
  have d: "distinct (map occ (oxs ?e))"
    and b: "\<forall>x\<in>set (oxs ?e). occ x < length (occs st) \<and> len - 1 \<le> item x
              \<and> item x < length (items (occs st ! occ x))"
    and sz: "ips_sized (occs st)"
    using f i by (simp_all add: frame_ok_def)
  have o: "occs (snd (closed_filter rd ?e len st)) = anchor (oxs ?e) (len - 1) (occs st)"
    using c by (simp add: closed_filter_closed closed_occs)
  have "\<forall>x\<in>set (oxs ?e). occ x < length (occs st) \<and> len - 1 < length (ips (occs st ! occ x))"
  proof
    fix x assume x: "x \<in> set (oxs ?e)"
    with b have q: "occ x < length (occs st)" "len - 1 \<le> item x"
      "item x < length (items (occs st ! occ x))" by simp_all
    with sz have "length (ips (occs st ! occ x)) = length (items (occs st ! occ x))"
      by (simp add: ips_sized_def all_set_conv_all_nth)
    with q show "occ x < length (occs st) \<and> len - 1 < length (ips (occs st ! occ x))" by simp
  qed
  with d show ?thesis unfolding o by (rule anchored_missing)
qed

lemma recurse_closed_kept:
  "closed_mode rd \<and> frame_ok (cnt rd) exts len (occs st) \<longrightarrow>
     kept st (snd (recurse rd exts z len st))"
  and rec_loop_closed_kept:
  "closed_mode rd \<and> 0 < len \<and> frame_ok (cnt rd) exts (len - 1) (occs st) \<longrightarrow>
     kept st (snd (snd (rec_loop rd exts len c i mx s st)))"
proof (induction rd exts z len st and rd exts len c i mx s st rule: recurse_induct)
  case (recurse rd exts z len st)
  show ?case
  proof
    assume a: "closed_mode rd \<and> frame_ok (cnt rd) exts len (occs st)"
    let ?m = "snd (malloc (entered st len))"
    have km: "kept st ?m" using kept_trans[OF entered_kept malloc_kept] .
    have ke: "kept st (entered st len)" by simp
    show "kept st (snd (recurse rd exts z len st))"
    proof (cases "len + 1 \<le> zmax rd")
      case True
      show ?thesis
      proof (cases "fst (malloc (entered st len))")
        case False
        with True km show ?thesis by (simp add: recurse_unfold)
      next
        case ok: True
        have "frame_ok (cnt rd) exts (len + 1 - 1) (occs ?m)" using a km kept_frame by simp
        with recurse(1)[OF True ok] a
        have "kept ?m (snd (snd (rec_loop rd exts (len + 1) True 0 0 0 ?m)))" by simp
        with km have "kept st (snd (snd (rec_loop rd exts (len + 1) True 0 0 0 ?m)))"
          by (rule kept_trans)
        with True ok show ?thesis by (simp add: recurse_unfold Let_def)
      qed
    next
      case False
      have "frame_ok (cnt rd) exts (len + 1 - 1) (occs (entered st len))"
        using a ke kept_frame by simp
      with recurse(2)[OF False] a
      have "kept (entered st len) (snd (snd (rec_loop rd exts (len + 1) False 0 0 0 (entered st len))))"
        by simp
      with ke have "kept st (snd (snd (rec_loop rd exts (len + 1) False 0 0 0 (entered st len))))"
        by (rule kept_trans)
      with False show ?thesis by (simp add: recurse_unfold Let_def)
    qed
  qed
next
  case (rec_loop rd exts len c i mx s st e flt st2 prj ch s1 st3 rp)
  note d = rec_loop(1-8)
  let ?L = "rec_loop rd exts len c i mx s st"
  show ?case
  proof
    assume a: "closed_mode rd \<and> 0 < len \<and> frame_ok (cnt rd) exts (len - 1) (occs st)"
    then have cm: "closed_mode rd" and l: "0 < len"
      and f0: "frame_ok (cnt rd) exts (len - 1) (occs st)" by simp_all
    show "kept st (snd (snd ?L))"
    proof (cases "i < cnt rd")
      case False
      then show ?thesis by (simp add: rec_loop_done)
    next
      case i: True
      show ?thesis
      proof (cases "supp e < smin rd")
        case True
        with i d(1) rec_loop(9)[OF i True] a show ?thesis by (simp add: rec_loop_infreq)
      next
        case f: False
        have k1: "kept st (snd flt)" using d(2) by (simp add: closed_filter_kept)
        have f1: "frame_ok (cnt rd) exts (len - 1) (occs (snd flt))"
          using k1 f0 by (rule kept_frame)
        show ?thesis
        proof (cases "fst flt")
          case True
          have "?L = rec_loop rd exts len c (i + 1) (mx_next mx e) s (snd flt)"
            by (rule rec_loop_skip[OF d(1,2) i f True])
          moreover have "kept (snd flt) (snd (snd (rec_loop rd exts len c (i + 1) (mx_next mx e) s (snd flt))))"
            using rec_loop(10)[OF i f True] cm l f1 by simp
          ultimately show ?thesis using k1 kept_trans by simp
        next
          case nf: False
          have ma: "missing_anchors (occs (snd flt)) (oxs e) (len - 1) = 0"
            using closed_filter_anchors[OF cm l i f0] d(1,2) by simp
          have k2: "kept (snd flt) st2"
            using d(3) ma by (simp add: kept_def st_added_def)
          have k02: "kept st st2" using k1 k2 by (rule kept_trans)
          have f2: "frame_ok (cnt rd) exts (len - 1) (occs st2)" using k02 f0 by (rule kept_frame)
          have k3: "kept st2 st3"
          proof (cases c)
            case False
            with d(5-7) show ?thesis by (simp add: child_none)
          next
            case c: True
            show ?thesis
            proof (cases "0 < snd prj")
              case False
              with c d(4-7) show ?thesis by (simp add: child_empty)
            next
              case z: True
              have p: "project (\<lambda>x. x) (occs st2) (oxs (exts ! i))
                         (replicate (cnt rd) \<lparr>supp = 0, oxs = []\<rparr>, 0) = (fst prj, snd prj)"
                using d(1,4) by (simp add: clear_cond_def)
              have "frame_ok (cnt rd) (fst prj) (len - 1 + 1) (occs st2)"
                by (rule project_frame[OF f2 i p])
              then have "frame_ok (cnt rd) (fst prj) len (occs st2)" using l by simp
              with rec_loop(11)[OF i f nf c z] cm
              have "kept st2 (snd (recurse rd (fst prj) (snd prj) len st2))" by simp
              with child_rec[OF c d(4) z, of len s] d(5-7) show ?thesis by simp
            qed
          qed
          have k03: "kept st st3" using k02 k3 by (rule kept_trans)
          show ?thesis
          proof (cases "fst ch")
            case True
            have "?L = (fst (snd ch), mx_next mx e, snd (snd ch))"
              by (rule rec_loop_break[OF d(1,2,3,5) i f nf True])
            with k03 d(7) show ?thesis by simp
          next
            case nb: False
            show ?thesis
            proof (cases "\<not> closed_mode rd \<or> s1 < supp e")
              case rep: True
              have k4: "kept st (snd rp)"
                using d(8) kept_trans[OF k03 reported_kept] by simp
              show ?thesis
              proof (cases "fst rp < 0")
                case True
                have "?L = (- 1, mx_next mx e, snd rp)"
                  by (rule rec_loop_fail[OF d(1,2,3,5,6,7,8) i f nf nb rep True])
                with k4 show ?thesis by simp
              next
                case ok: False
                have k5: "kept st (st_popped (snd rp))"
                  using kept_trans[OF k4 st_popped_kept] .
                have "?L = rec_loop rd exts len c (i + 1) (mx_next mx e) s1 (st_popped (snd rp))"
                  by (rule rec_loop_report[OF d(1,2,3,5,6,7,8) i f nf nb rep ok])
                moreover have "kept (st_popped (snd rp))
                    (snd (snd (rec_loop rd exts len c (i + 1) (mx_next mx e) s1 (st_popped (snd rp)))))"
                  using rec_loop(12)[OF i f nf nb rep ok] cm l kept_frame[OF k5 f0] by simp
                ultimately show ?thesis using k5 kept_trans by simp
              qed
            next
              case q: False
              have k5: "kept st (st_popped st3)"
                using kept_trans[OF k03 st_popped_kept] .
              have "?L = rec_loop rd exts len c (i + 1) (mx_next mx e) s1 (st_popped st3)"
                by (rule rec_loop_quiet[OF d(1,2,3,5,6,7) i f nf nb q])
              moreover have "kept (st_popped st3)
                  (snd (snd (rec_loop rd exts len c (i + 1) (mx_next mx e) s1 (st_popped st3))))"
                using rec_loop(13)[OF i f nf nb q] cm l kept_frame[OF k5 f0] by simp
              ultimately show ?thesis using k5 kept_trans by simp
            qed
          qed
        qed
      qed
    qed
  qed
qed

lemma mk_occs_sized: "ips_sized (mk_occs bag)"
  by (simp add: ips_sized_def mk_occs_def)

text \<open>
  C7, as the code has it. In closed mode the anchor \<^verbatim>\<open>ips[len-1]\<close> of every
  occurrence extension of an item is its extension item when the gaps are scanned and when
  the projection loop runs: \<^verbatim>\<open>closed\<close> writes the anchors itself before it scans
  the gaps. So in the whole recursion that \<^verbatim>\<open>sequoia\<close> starts on a bag whose
  transactions have no repeated item, no item of \<^verbatim>\<open>recurse\<close> reaches its projection
  block with an occurrence extension that is not anchored. In a frame as the recursion
  builds them, the test of an item leaves every occurrence extension of the item anchored,
  and its result (with extensions to test and the counters zero) is decided by the gaps in
  front of the anchors \<^verbatim>\<open>ips[0..len-2]\<close> and the extension items. In all-patterns
  mode \<^verbatim>\<open>recurse\<close> leaves the occurrences as they are.
\<close>

theorem closed_mode_anchors_before_test_and_projection:
  "(wf_bag (\<lambda>x. x) bag \<and> closed_mode (mk_rd bag tg sm md rep) \<longrightarrow>
      unanchored (snd (recurse (mk_rd bag tg sm md rep)
         (root_exts (\<lambda>x. x) 0 (mk_occs bag) (clear_cond (mk_rd bag tg sm md rep)))
         (tbg_extent bag) 0 (mk_store bag rep hp (\<lambda>x. x) 0))) = 0)
   \<and> (closed_mode rd \<and> frame_ok (cnt rd) exts (len - 1) (occs st) \<and> 0 < len \<and> i < cnt rd \<longrightarrow>
        missing_anchors (occs (snd (closed_filter rd (exts ! i) len st)))
          (oxs (exts ! i)) (len - 1) = 0
        \<and> (oxs (exts ! i) \<noteq> [] \<and> frqs st = replicate (cnt rd) 0 \<longrightarrow>
             fst (closed_filter rd (exts ! i) len st) =
               (\<exists>g<len. \<exists>a. \<forall>x\<in>set (oxs (exts ! i)).
                   in_gap (\<lambda>x. x) (items (occs st ! occ x))
                     ((ips (occs st ! occ x))[len - 1 := Some (item x)]) g a)))
   \<and> (\<not> closed_mode rd \<longrightarrow> occs (snd (recurse rd exts z n st)) = occs st)"
proof (intro conjI impI; (elim conjE)?)
  let ?rd = "mk_rd bag tg sm md rep"
  let ?st = "mk_store bag rep hp (\<lambda>x. x) 0"
  let ?exts = "root_exts (\<lambda>x. x) 0 (mk_occs bag) (clear_cond ?rd)"
  assume wf: "wf_bag (\<lambda>x. x) bag" and c: "closed_mode ?rd"
  have k: "cnt ?rd = itemcnt bag" by (simp add: mk_rd_def)
  have "frame_ok (itemcnt bag) ?exts 0 (mk_occs bag)"
    using root_frame[OF wf_bag_occs[OF wf] mk_occs_sized] by (simp add: clear_cond_def k)
  then have "frame_ok (cnt ?rd) ?exts 0 (occs ?st)" by (simp add: k mk_store_def)
  with recurse_closed_kept[of ?rd ?exts 0 ?st "tbg_extent bag"] c
  have "kept ?st (snd (recurse ?rd ?exts (tbg_extent bag) 0 ?st))" by simp
  then show "unanchored (snd (recurse ?rd ?exts (tbg_extent bag) 0 ?st)) = 0"
    by (simp add: kept_def mk_store_def)
next
  assume c: "closed_mode rd" and f: "frame_ok (cnt rd) exts (len - 1) (occs st)"
    and l: "0 < len" and i: "i < cnt rd"
  show "missing_anchors (occs (snd (closed_filter rd (exts ! i) len st))) (oxs (exts ! i)) (len - 1) = 0"
    by (rule closed_filter_anchors[OF c l i f])
next
  assume c: "closed_mode rd" and f: "frame_ok (cnt rd) exts (len - 1) (occs st)"
    and i: "i < cnt rd" and ne: "oxs (exts ! i) \<noteq> []" and z: "frqs st = replicate (cnt rd) 0"
  let ?e = "exts ! i"
  have d: "distinct (map occ (oxs ?e))"
    and b: "\<forall>x\<in>set (oxs ?e). occ x < length (occs st) \<and> wf_occ (\<lambda>x. x) (cnt rd) (occs st ! occ x)"
    using f i by (simp_all add: frame_ok_def wf_occs_def)
  have "fst (closed_ext ?e len st) =
          (if \<exists>g<len. \<exists>a. \<forall>x\<in>set (oxs ?e).
                  in_gap (\<lambda>x. x) (items (occs st ! occ x))
                    ((ips (occs st ! occ x))[len - 1 := Some (item x)]) g a
           then 0 else - 1)"
    by (rule closed_ext_positional[OF ne z d b])
  then show "fst (closed_filter rd ?e len st) =
              (\<exists>g<len. \<exists>a. \<forall>x\<in>set (oxs ?e).
                  in_gap (\<lambda>x. x) (items (occs st ! occ x))
                    ((ips (occs st ! occ x))[len - 1 := Some (item x)]) g a)"
    using c by (simp add: closed_filter_closed)
next
  assume "\<not> closed_mode rd"
  then show "occs (snd (recurse rd exts z n st)) = occs st"
    using recurse_all_occs by simp
qed

theorem closed_mode_anchors_before_test_and_projection_witness:
  "closed_mode rd_acb
   \<and> unanchored (snd (recurse rd_acb
          (root_exts (\<lambda>x. x) 0 (mk_occs bag_acb) (clear_cond rd_acb))
          (tbg_extent bag_acb) 0 (mk_store bag_acb (new_report 0 4 2) [] (\<lambda>x. x) 0))) = 0
   \<and> fst (closed_filter rd_acb (cond_acb ! 1) 2 st_acb)
   \<and> missing_anchors (occs st_acb) (oxs (cond_acb ! 1)) (2 - 1) = 2
   \<and> missing_anchors (occs (snd (closed_filter rd_acb (cond_acb ! 1) 2 st_acb)))
         (oxs (cond_acb ! 1)) (2 - 1) = 0
   \<and> occs (snd (recurse (rd_abc 0) exts_abc 7 0 st_abc)) = occs st_abc"
proof -
  have h1: "wf_bag (\<lambda>x. x) bag_acb" by code_simp
  have k: "cnt rd_acb = 4" by code_simp
  have h2: "frame_ok (cnt rd_acb) cond_acb (2 - 1) (occs st_acb)" unfolding k by code_simp
  have h3: "(0::nat) < 2" by simp
  have h4: "1 < cnt rd_acb" unfolding k by simp
  have h5: "oxs (cond_acb ! 1) \<noteq> []" by code_simp
  have h6: "frqs st_acb = replicate (cnt rd_acb) 0" unfolding k by code_simp
  have c: "closed_mode rd_acb" by code_simp
  have a: "\<not> closed_mode (rd_abc 0)" by code_simp
  have m: "missing_anchors (occs st_acb) (oxs (cond_acb ! 1)) (2 - 1) = 2" by code_simp
  have e1: "\<forall>x\<in>set (oxs (cond_acb ! 1)).
              in_gap (\<lambda>x. x) (items (occs st_acb ! occ x))
                ((ips (occs st_acb ! occ x))[2 - 1 := Some (item x)]) 1 2"
    by code_simp
  then have x1: "\<exists>g<2::nat. \<exists>a. \<forall>x\<in>set (oxs (cond_acb ! 1)).
              in_gap (\<lambda>x. x) (items (occs st_acb ! occ x))
                ((ips (occs st_acb ! occ x))[2 - 1 := Some (item x)]) g a"
    by (intro exI[of _ "1::nat"] conjI exI[of _ "2::nat"]) simp_all
  have t1: "unanchored (snd (recurse rd_acb
          (root_exts (\<lambda>x. x) 0 (mk_occs bag_acb) (clear_cond rd_acb))
          (tbg_extent bag_acb) 0 (mk_store bag_acb (new_report 0 4 2) [] (\<lambda>x. x) 0))) = 0"
    using closed_mode_anchors_before_test_and_projection[of bag_acb ISR_CLOSED 1 ISR_CLOSED
        "new_report 0 4 2" "[]"] h1 c
    by (simp add: rd_acb_def)
  have t2: "missing_anchors (occs (snd (closed_filter rd_acb (cond_acb ! 1) 2 st_acb)))
              (oxs (cond_acb ! 1)) (2 - 1) = 0
          \<and> fst (closed_filter rd_acb (cond_acb ! 1) 2 st_acb)"
    using closed_mode_anchors_before_test_and_projection[where rd = rd_acb and exts = cond_acb
        and len = 2 and st = st_acb and i = 1] c h2 h3 h4 h5 h6 x1
    by simp
  have t3: "occs (snd (recurse (rd_abc 0) exts_abc 7 0 st_abc)) = occs st_abc"
    using closed_mode_anchors_before_test_and_projection[where rd = "rd_abc 0" and exts = exts_abc
        and z = 7 and n = 0 and st = st_abc] a
    by simp
  from c t1 t2 m t3 show ?thesis by simp
qed
text \<open>
  C7, as stated, fails in all-patterns mode: for item \<open>a\<close> of the bag \<open>(a,b,c)\<close>,
  \<open>(a,c)\<close>, \<open>(a,b)\<close>, which is frequent, the anchor \<^verbatim>\<open>ips[0]\<close> of its first
  occurrence is still unwritten when the projection loop runs, and after the whole call.
\<close>

theorem recurse_all_mode_writes_no_anchor:
  "\<not> closed_mode (rd_abc 0) \<and> smin (rd_abc 0) \<le> supp (exts_abc ! 0)
   \<and> oxs (exts_abc ! 0) ! 0 = \<lparr>item = 0, occ = 0\<rparr>
   \<and> ips (occs (snd (closed_filter (rd_abc 0) (exts_abc ! 0) 1 st_abc)) ! 0) ! 0 = None
   \<and> ips (occs (snd (recurse (rd_abc 0) exts_abc 7 0 st_abc)) ! 0) ! 0 = None"
  by code_simp

subsection \<open>The reporting policy\<close>

lemma isr_isetx_stack [simp]: "r_stack (snd (isr_isetx rep its n ws s)) = r_stack rep"
  by (simp add: isr_isetx_def split: list.splits)

lemma isr_report_stack [simp]: "r_stack (snd (isr_report rep)) = r_stack rep"
  by (simp add: isr_report_def)

lemma closed_filter_report [simp]: "report (snd (closed_filter rd e len st)) = report st"
  by (simp add: closed_filter_def closed_ext_def Let_def split_beta)

lemma malloc_report [simp]: "report (snd (malloc st)) = report st"
  by (simp add: malloc_def split: list.splits)

lemma st_added_stack [simp]:
  "r_stack (report (st_added st i e len)) = r_stack (report st) @ [(i, supp e)]"
  by (simp add: st_added_def isr_add_def)

lemma st_popped_stack [simp]:
  "r_stack (report (st_popped st)) = butlast (r_stack (report st))"
  by (simp add: st_popped_def isr_remove_def butlast_conv_take)

lemma reported_stack [simp]: "r_stack (report (snd (reported st r))) = r_stack (snd r)"
  by (simp add: reported_def)


lemma entered_pat [simp]: "pat (entered st len) = pat st"
  by (simp add: entered_def)

lemma malloc_pat [simp]: "pat (snd (malloc st)) = pat st"
  by (simp add: malloc_def split: list.splits)

lemma reported_pat [simp]: "pat (snd (reported st r)) = pat st"
  by (simp add: reported_def)

lemma closed_filter_iw_pat [simp]: "pat (snd (closed_filter_iw rd e len st)) = pat st"
  by (simp add: closed_filter_iw_def closed_iw_def split_beta)

lemma st_weighed_pat [simp]: "pat (st_weighed st e len) = pat st"
  by (simp add: st_weighed_def)

lemma st_anchored_pat [simp]: "pat (st_anchored st len i e) = (pat st)[len - 1 := i]"
  by (simp add: st_anchored_def)












end
